theory Spec2Isabelle
  imports Complex_Main "HOL-Library.Signed_Division"
begin

section \<open>Constants of the program\<close>

text \<open>
  \<^verbatim>\<open>#define N 100000000\<close> and \<^verbatim>\<open>#define BLOCK_SIZE 8307040\<close>. The functions below take
  the two values as parameters \<open>n\<close> and \<open>b\<close>, so that the partition can be studied for
  every pair; the program is the instance \<open>n = N\<close>, \<open>b = BLOCK_SIZE\<close>.
\<close>

definition N :: int where
  "N = 100000000"

definition BLOCK_SIZE :: int where
  "BLOCK_SIZE = 8307040"

text \<open>
  \<^verbatim>\<open>#define NUMBER_OF_BLOCKS N/BLOCK_SIZE +(N % BLOCK_SIZE ? 1 : 0)\<close>. The operators of
  C++ truncate towards zero (\<open>sdiv\<close>, \<open>smod\<close>). The macro is only used as the right
  operand of \<^verbatim>\<open><=\<close>, which binds weaker than \<^verbatim>\<open>+\<close>, so the missing parentheses do
  not change its value.
\<close>

definition NUMBER_OF_BLOCKS :: "int \<Rightarrow> int \<Rightarrow> int" where
  "NUMBER_OF_BLOCKS n b = n sdiv b + (if n smod b \<noteq> 0 then 1 else 0)"

text \<open>The range of the 32-bit \<^verbatim>\<open>int\<close> of the program (MSVC).\<close>

definition INT_MAX :: int where
  "INT_MAX = 2147483647"

definition INT_MIN :: int where
  "INT_MIN = - 2147483648"

definition fits_int :: "int \<Rightarrow> bool" where
  "fits_int x = (INT_MIN \<le> x \<and> x \<le> INT_MAX)"

section \<open>The bounds of a block (lines 73 to 86 of calculateIteration)\<close>

text \<open>
  \<^verbatim>\<open>int startIteration = currentBlock * BLOCK_SIZE;\<close>
  \<^verbatim>\<open>int endIteration = (currentBlock + 1) * BLOCK_SIZE;\<close>
  \<^verbatim>\<open>if (endIteration > N) endIteration = N;\<close>
  Signed overflow is undefined behaviour in C++: the model returns \<open>None\<close> when one of
  the three \<^verbatim>\<open>int\<close> results does not fit.
\<close>

definition blockBounds :: "int \<Rightarrow> int \<Rightarrow> int \<Rightarrow> (int \<times> int) option" where
  "blockBounds n b currentBlock =
     (if fits_int (currentBlock * b) \<and> fits_int (currentBlock + 1)
         \<and> fits_int ((currentBlock + 1) * b)
      then (let startIteration = currentBlock * b;
                endIteration = (currentBlock + 1) * b;
                endIteration = (if endIteration > n then n else endIteration)
            in Some (startIteration, endIteration))
      else None)"

text \<open>
  \<^verbatim>\<open>for (int i = startIteration; i < endIteration; i++) body\<close>, with the loop body as a
  parameter acting on the accumulated value.
\<close>

function forLoop :: "(int \<Rightarrow> 'a \<Rightarrow> 'a) \<Rightarrow> int \<Rightarrow> int \<Rightarrow> 'a \<Rightarrow> 'a" where
  "forLoop body i endIteration acc =
     (if i < endIteration then forLoop body (i + 1) endIteration (body i acc) else acc)"
  by pat_completeness auto
termination
  by (relation "measure (\<lambda>(body, i, endIteration, acc). nat (endIteration - i))") auto

declare forLoop.simps [simp del]

text \<open>
  \<^verbatim>\<open>4 / (1 + pow((i + 0.5) / N, 2))\<close>. The program computes in \<^verbatim>\<open>double\<close>; this is the
  value in the real numbers (exact arithmetic). The rounded value and the rounded additions
  are those of the double-precision model below (\<open>addSample_double\<close>).
\<close>

definition integrand :: "int \<Rightarrow> int \<Rightarrow> real" where
  "integrand n i = 4 / (1 + ((real_of_int i + 1 / 2) / real_of_int n) ^ 2)"

text \<open>\<^verbatim>\<open>threadPi += 4 / (1 + pow((i + 0.5) / N, 2));\<close>\<close>

definition addSample :: "int \<Rightarrow> int \<Rightarrow> real \<Rightarrow> real" where
  "addSample n i threadPi = threadPi + integrand n i"

text \<open>The sample indices the loop of line 92 visits, in order: the same loop, recording \<open>i\<close>.\<close>

definition visited :: "int \<Rightarrow> int \<Rightarrow> int list" where
  "visited startIteration endIteration = forLoop (\<lambda>i xs. xs @ [i]) startIteration endIteration []"

text \<open>
  The sample indices at which a worker holding block \<open>currentBlock\<close> evaluates the integrand:
  none when the guard \<^verbatim>\<open>currentBlock <= NUMBER_OF_BLOCKS\<close> of line 60 fails, the indices of
  the inner loop otherwise. \<open>None\<close> is undefined behaviour (overflow in the bounds).
\<close>

definition evaluatedAt :: "int \<Rightarrow> int \<Rightarrow> int \<Rightarrow> int list option" where
  "evaluatedAt n b currentBlock =
     (if currentBlock \<le> NUMBER_OF_BLOCKS n b
      then (case blockBounds n b currentBlock of
              None \<Rightarrow> None
            | Some (startIteration, endIteration) \<Rightarrow> Some (visited startIteration endIteration))
      else Some [])"

text \<open>
  The configurations in which no bound computed under the guard of line 60 overflows:
  the largest product computed there is \<open>(NUMBER_OF_BLOCKS + 1) * BLOCK_SIZE\<close>.
\<close>

definition valid_config :: "int \<Rightarrow> int \<Rightarrow> bool" where
  "valid_config n b = (1 \<le> n \<and> 1 \<le> b \<and> (NUMBER_OF_BLOCKS n b + 1) * b \<le> INT_MAX)"

definition blockSamples :: "int \<Rightarrow> int \<Rightarrow> int \<Rightarrow> int set" where
  "blockSamples n b currentBlock =
     (case evaluatedAt n b currentBlock of None \<Rightarrow> {} | Some xs \<Rightarrow> set xs)"

section \<open>The shared state and the threads\<close>

text \<open>
  The places of \<^verbatim>\<open>calculateIteration\<close> between two accesses to shared state: the loop
  test of line 60 (with the thread-local computation of lines 73 to 94 when it succeeds),
  \<^verbatim>\<open>SetEvent\<close> (line 101), the read of \<^verbatim>\<open>nextBlock\<close> (line 106), \<^verbatim>\<open>SuspendThread\<close>
  (line 107), \<^verbatim>\<open>nextBlock.fetch_add\<close> (line 125), \<^verbatim>\<open>pi.fetch_add\<close> (line 133) and the
  return. \<open>Overflow\<close> is the undefined behaviour of a bound that does not fit an \<^verbatim>\<open>int\<close>.
\<close>

datatype point =
  AtLoopTest | AtSetEvent | AtCheckNext | AtSuspend | AtClaim | AtFold | Returned | Overflow

text \<open>
  A thread: where it stands, its locals \<^verbatim>\<open>currentBlock\<close> and \<^verbatim>\<open>threadPi\<close>, and the suspend
  count the operating system keeps for it (the thread runs only while the count is 0).
\<close>

record worker =
  pc :: point
  currentBlock :: int
  threadPi :: real
  suspendCount :: nat

text \<open>
  The globals: \<^verbatim>\<open>std::atomic<long> nextBlock\<close>, \<^verbatim>\<open>std::atomic<double> pi\<close> (here
  \<open>pi_global\<close>, a real number), \<^verbatim>\<open>threadsArray\<close> (the threads, by index) and
  \<^verbatim>\<open>eventsArray\<close> (whether each event is signalled).
\<close>

record system =
  nextBlock :: int
  pi_global :: real
  workers :: "worker list"
  events :: "bool list"

definition setWorker :: "nat \<Rightarrow> worker \<Rightarrow> system \<Rightarrow> system" where
  "setWorker t w s = s\<lparr>workers := (workers s)[t := w]\<rparr>"

text \<open>
  \<^verbatim>\<open>fetch_add(1)\<close> on a 32-bit \<^verbatim>\<open>std::atomic<long>\<close> wraps around (two's complement, no
  undefined behaviour).
\<close>

definition wrap_long :: "int \<Rightarrow> int" where
  "wrap_long x = (if x > INT_MAX then x - 4294967296 else x)"

text \<open>One atomic action of the thread \<open>threadID\<close> running \<^verbatim>\<open>calculateIteration\<close>.\<close>

definition calculateIteration_step :: "int \<Rightarrow> int \<Rightarrow> nat \<Rightarrow> system \<Rightarrow> system" where
  "calculateIteration_step n b threadID s =
     (let w = workers s ! threadID in
      case pc w of
        AtLoopTest \<Rightarrow>
          (if currentBlock w \<le> NUMBER_OF_BLOCKS n b
           then (case blockBounds n b (currentBlock w) of
                   None \<Rightarrow> setWorker threadID (w\<lparr>pc := Overflow\<rparr>) s
                 | Some (startIteration, endIteration) \<Rightarrow>
                     setWorker threadID
                       (w\<lparr>pc := AtSetEvent,
                          threadPi := forLoop (addSample n) startIteration endIteration (threadPi w)\<rparr>) s)
           else setWorker threadID (w\<lparr>pc := AtFold\<rparr>) s)
      | AtSetEvent \<Rightarrow>
          setWorker threadID (w\<lparr>pc := AtCheckNext\<rparr>) (s\<lparr>events := (events s)[threadID := True]\<rparr>)
      | AtCheckNext \<Rightarrow>
          setWorker threadID
            (w\<lparr>pc := (if nextBlock s \<le> NUMBER_OF_BLOCKS n b then AtSuspend else AtClaim)\<rparr>) s
      | AtSuspend \<Rightarrow>
          setWorker threadID (w\<lparr>pc := AtClaim, suspendCount := suspendCount w + 1\<rparr>) s
      | AtClaim \<Rightarrow>
          setWorker threadID (w\<lparr>pc := AtLoopTest, currentBlock := nextBlock s\<rparr>)
            (s\<lparr>nextBlock := wrap_long (nextBlock s + 1)\<rparr>)
      | AtFold \<Rightarrow>
          setWorker threadID (w\<lparr>pc := Returned\<rparr>) (s\<lparr>pi_global := pi_global s + threadPi w\<rparr>)
      | Returned \<Rightarrow> s
      | Overflow \<Rightarrow> s)"

text \<open>
  \<^verbatim>\<open>ResumeThread\<close> decrements the suspend count unless it is 0; \<^verbatim>\<open>ResetEvent\<close> clears an
  event.
\<close>

definition ResumeThread :: "nat \<Rightarrow> system \<Rightarrow> system" where
  "ResumeThread t s =
     (let w = workers s ! t in setWorker t (w\<lparr>suspendCount := suspendCount w - 1\<rparr>) s)"

definition ResetEvent :: "nat \<Rightarrow> system \<Rightarrow> system" where
  "ResetEvent t s = s\<lparr>events := (events s)[t := False]\<rparr>"

definition runnable :: "worker \<Rightarrow> bool" where
  "runnable w = (suspendCount w = 0 \<and> pc w \<noteq> Returned \<and> pc w \<noteq> Overflow)"

text \<open>
  An interleaving is a list of actions: \<open>Run t\<close> lets thread \<open>t\<close> execute its next atomic
  action (nothing happens when it is suspended or has returned); \<open>Resume t\<close> and \<open>Reset t\<close>
  are the calls the coordinator makes on the handles of thread \<open>t\<close> (lines 180, 215, 218,
  230). The coordinator's dispatch loop is not fixed: every order of its calls is a
  schedule, so what holds for all schedules holds for every run of the program.
\<close>

datatype action = Run nat | Resume nat | Reset nat

fun step :: "int \<Rightarrow> int \<Rightarrow> action \<Rightarrow> system \<Rightarrow> system" where
  "step n b (Run t) s =
     (if t < length (workers s) \<and> runnable (workers s ! t)
      then calculateIteration_step n b t s else s)"
| "step n b (Resume t) s = (if t < length (workers s) then ResumeThread t s else s)"
| "step n b (Reset t) s = (if t < length (events s) then ResetEvent t s else s)"

fun exec :: "int \<Rightarrow> int \<Rightarrow> action list \<Rightarrow> system \<Rightarrow> system" where
  "exec n b [] s = s"
| "exec n b (a # as) s = exec n b as (step n b a s)"

text \<open>
  What an action dispenses: the thread and the value \<^verbatim>\<open>fetch_add\<close> returns to it, when the
  action is a \<^verbatim>\<open>nextBlock.fetch_add\<close>; and the log of a whole schedule.
\<close>

fun claimed :: "action \<Rightarrow> system \<Rightarrow> (nat \<times> int) list" where
  "claimed (Run t) s =
     (if t < length (workers s) \<and> runnable (workers s ! t) \<and> pc (workers s ! t) = AtClaim
      then [(t, nextBlock s)] else [])"
| "claimed (Resume t) s = []"
| "claimed (Reset t) s = []"

fun dispatchLog :: "int \<Rightarrow> int \<Rightarrow> action list \<Rightarrow> system \<Rightarrow> (nat \<times> int) list" where
  "dispatchLog n b [] s = []"
| "dispatchLog n b (a # as) s = claimed a s @ dispatchLog n b as (step n b a s)"

text \<open>The threads that execute \<^verbatim>\<open>pi.fetch_add\<close> (line 133), in the order of the schedule.\<close>

fun folded :: "action \<Rightarrow> system \<Rightarrow> nat list" where
  "folded (Run t) s =
     (if t < length (workers s) \<and> runnable (workers s ! t) \<and> pc (workers s ! t) = AtFold
      then [t] else [])"
| "folded (Resume t) s = []"
| "folded (Reset t) s = []"

fun foldLog :: "int \<Rightarrow> int \<Rightarrow> action list \<Rightarrow> system \<Rightarrow> nat list" where
  "foldLog n b [] s = []"
| "foldLog n b (a # as) s = folded a s @ foldLog n b as (step n b a s)"

section \<open>The coordinator (calculatePi)\<close>

text \<open>
  The globals at program start, and the creation loop of lines 161 to 166: thread \<open>i\<close> is
  created suspended (\<^verbatim>\<open>CREATE_SUSPENDED\<close>) with \<^verbatim>\<open>threadID = i\<close>, its event not signalled.
  Line 173 then stores \<^verbatim>\<open>numberOfThreads\<close> in \<^verbatim>\<open>nextBlock\<close>. The thread count is a
  natural number here (a negative count makes the allocation of line 150 fail).
\<close>

definition globals :: system where
  "globals = \<lparr>nextBlock = 0, pi_global = 0, workers = [], events = []\<rparr>"

definition createdThread :: "nat \<Rightarrow> worker" where
  "createdThread i = \<lparr>pc = AtLoopTest, currentBlock = int i, threadPi = 0, suspendCount = 1\<rparr>"

fun createAll :: "nat list \<Rightarrow> system \<Rightarrow> system" where
  "createAll [] s = s"
| "createAll (i # is) s =
     createAll is (s\<lparr>workers := workers s @ [createdThread i], events := events s @ [False]\<rparr>)"

definition calculatePi_setup :: "nat \<Rightarrow> system" where
  "calculatePi_setup numberOfThreads =
     (createAll [0..<numberOfThreads] globals)\<lparr>nextBlock := int numberOfThreads\<rparr>"

text \<open>
  A loop \<^verbatim>\<open>ResumeThread(threadsArray[i])\<close> over a list of indices. \<^verbatim>\<open>threadsArray\<close> has
  \<^verbatim>\<open>numberOfThreads\<close> elements; reading one past them is an error of the model.
\<close>

datatype error = OutOfBounds nat

fun resumeEach :: "nat list \<Rightarrow> system \<Rightarrow> error + system" where
  "resumeEach [] s = Inr s"
| "resumeEach (i # is) s =
     (if i < length (workers s) then resumeEach is (ResumeThread i s) else Inl (OutOfBounds i))"

text \<open>Lines 179 to 181: \<^verbatim>\<open>for (int i = 0; i <= numberOfThreads; i++)\<close>.\<close>

definition calculatePi_start :: "nat \<Rightarrow> system \<Rightarrow> error + system" where
  "calculatePi_start numberOfThreads s = resumeEach [0..<numberOfThreads + 1] s"

text \<open>Lines 224 to 231: \<^verbatim>\<open>for (int i = 0; i < numberOfThreads; i++)\<close>.\<close>

definition calculatePi_collect :: "nat \<Rightarrow> system \<Rightarrow> error + system" where
  "calculatePi_collect numberOfThreads s = resumeEach [0..<numberOfThreads] s"


definition allReturned :: "system \<Rightarrow> bool" where
  "allReturned s = list_all (\<lambda>w. pc w = Returned) (workers s)"

text \<open>
  The thread counts for which the counter cannot wrap: it never exceeds
  \<open>numberOfThreads + NUMBER_OF_BLOCKS + 1\<close>.
\<close>

definition valid_run :: "int \<Rightarrow> int \<Rightarrow> nat \<Rightarrow> bool" where
  "valid_run n b numberOfThreads =
     (valid_config n b \<and> 1 \<le> numberOfThreads
      \<and> int numberOfThreads + NUMBER_OF_BLOCKS n b + 1 \<le> INT_MAX)"

section \<open>The invariant of the shared state\<close>

text \<open>
  The sum a block contributes, whether a thread holds an index past the blocks, and what a
  thread still owes to \<open>pi_global\<close>: its partial sum until it has folded, and the sum of the
  block it holds but has not computed yet.
\<close>

definition blockSum :: "int \<Rightarrow> int \<Rightarrow> int \<Rightarrow> real" where
  "blockSum n b k = (\<Sum>i\<in>blockSamples n b k. integrand n i)"

definition exhausted :: "int \<Rightarrow> int \<Rightarrow> worker \<Rightarrow> int" where
  "exhausted n b w = (if NUMBER_OF_BLOCKS n b < currentBlock w then 1 else 0)"

definition owed :: "int \<Rightarrow> int \<Rightarrow> worker \<Rightarrow> real" where
  "owed n b w =
     (if pc w = Returned then 0 else threadPi w)
     + (if pc w = AtLoopTest then blockSum n b (currentBlock w) else 0)"

definition worker_ok :: "int \<Rightarrow> int \<Rightarrow> int \<Rightarrow> worker \<Rightarrow> bool" where
  "worker_ok n b c w =
     (0 \<le> currentBlock w \<and> currentBlock w < c \<and> suspendCount w \<le> 1 \<and> pc w \<noteq> Overflow
      \<and> (pc w \<in> {AtSetEvent, AtCheckNext, AtSuspend, AtClaim}
            \<longrightarrow> currentBlock w \<le> NUMBER_OF_BLOCKS n b)
      \<and> (pc w \<in> {AtFold, Returned} \<longrightarrow> NUMBER_OF_BLOCKS n b < currentBlock w))"

definition invariant :: "int \<Rightarrow> int \<Rightarrow> nat \<Rightarrow> system \<Rightarrow> bool" where
  "invariant n b T s =
     (length (workers s) = T \<and> length (events s) = T
      \<and> (\<forall>w\<in>set (workers s). worker_ok n b (nextBlock s) w)
      \<and> int T \<le> nextBlock s
      \<and> nextBlock s \<le> NUMBER_OF_BLOCKS n b + 1 + (\<Sum>w\<leftarrow>workers s. exhausted n b w)
      \<and> pi_global s + (\<Sum>w\<leftarrow>workers s. owed n b w)
          = (\<Sum>k\<in>{0..<nextBlock s}. blockSum n b k))"





section \<open>A concrete run\<close>

text \<open>
  An interleaving of two threads that runs both to their return: both compute their first
  block and suspend, thread 1 is resumed and claims first, then thread 0; the prefix ends
  after the first claim.
\<close>

definition twoThreadsPrefix :: "action list" where
  "twoThreadsPrefix =
     [Resume 0, Resume 1, Run 0, Run 1, Run 1, Run 0, Run 0, Run 1, Run 1, Run 0,
      Reset 1, Resume 1, Run 1]"

definition twoThreadsRun :: "action list" where
  "twoThreadsRun = twoThreadsPrefix @
     [Reset 0, Resume 0, Run 0,
      Run 0, Run 0, Run 0, Run 0, Run 0, Run 0,
      Run 1, Run 1, Run 1, Run 1, Run 1, Run 1]"

text \<open>
  Thread 0 computes its first block, signals, suspends itself and is resumed: it stands
  before its first \<^verbatim>\<open>fetch_add\<close>.
\<close>

definition upToFirstClaim :: "action list" where
  "upToFirstClaim = [Resume 0, Run 0, Run 0, Run 0, Run 0, Resume 0]"

text \<open>
  With 13 threads: thread 0 computes block 0, signals, suspends, is reset and resumed, and
  claims; it then holds the index 13. In the longer schedule it goes round the loop once
  more and holds 14.
\<close>

definition holdsBlockCount :: "action list" where
  "holdsBlockCount = [Resume 0, Run 0, Run 0, Run 0, Run 0, Reset 0, Resume 0, Run 0]"

definition holdsPastBlockCount :: "action list" where
  "holdsPastBlockCount = holdsBlockCount @ [Run 0, Run 0, Reset 0, Run 0, Run 0]"


section \<open>The program in double precision\<close>










text \<open>
  The factors by which a sum of non-negative terms can be off after \<open>k\<close> rounded operations
  on rounded samples.
\<close>

definition lo :: "real \<Rightarrow> real \<Rightarrow> nat \<Rightarrow> real" where
  "lo u eta k = (1 - eta) * (1 - u) ^ k"

definition hi :: "real \<Rightarrow> real \<Rightarrow> nat \<Rightarrow> real" where
  "hi u eta k = (1 + eta) * (1 + u) ^ k"






section \<open>Facts about the partition\<close>

lemma NUMBER_OF_BLOCKS_div:
  assumes "0 \<le> n" "0 < b"
  shows "NUMBER_OF_BLOCKS n b = n div b + (if n mod b \<noteq> 0 then 1 else 0)"
  using assms by (cases "n = 0") (auto simp: NUMBER_OF_BLOCKS_def signed_divide_int_def signed_modulo_int_def sgn_if)

lemma NUMBER_OF_BLOCKS_program: "NUMBER_OF_BLOCKS N BLOCK_SIZE = 13"
  by (simp add: NUMBER_OF_BLOCKS_def N_def BLOCK_SIZE_def signed_divide_int_def signed_modulo_int_def)

lemma valid_config_program: "valid_config N BLOCK_SIZE"
  by (simp add: valid_config_def NUMBER_OF_BLOCKS_program) (simp add: N_def BLOCK_SIZE_def INT_MAX_def)

lemma blocks_cover_upper:
  assumes "0 \<le> n" "0 < b"
  shows "n \<le> NUMBER_OF_BLOCKS n b * b"
proof -
  define q r where "q = n div b" and "r = n mod b"
  have e: "n = b * q + r" by (simp add: q_def r_def)
  have r: "0 \<le> r" "r < b" using assms by (simp_all add: r_def)
  have "NUMBER_OF_BLOCKS n b * b = b * q + (if r \<noteq> 0 then b else 0)"
    using assms by (simp add: NUMBER_OF_BLOCKS_div q_def r_def algebra_simps)
  with e r show ?thesis by (simp split: if_splits)
qed

lemma blocks_cover_lower:
  assumes "1 \<le> n" "0 < b"
  shows "(NUMBER_OF_BLOCKS n b - 1) * b < n"
proof -
  define q r where "q = n div b" and "r = n mod b"
  have e: "n = b * q + r" by (simp add: q_def r_def)
  have r: "0 \<le> r" "r < b" using assms by (simp_all add: r_def)
  have "(NUMBER_OF_BLOCKS n b - 1) * b = b * q + (if r \<noteq> 0 then 0 else - b)"
    using assms by (simp add: NUMBER_OF_BLOCKS_div q_def r_def algebra_simps)
  with e r assms show ?thesis by (simp split: if_splits)
qed

lemma NUMBER_OF_BLOCKS_ceiling:
  assumes "1 \<le> n" "0 < b"
  shows "NUMBER_OF_BLOCKS n b = \<lceil>real_of_int n / real_of_int b\<rceil>"
proof -
  let ?M = "NUMBER_OF_BLOCKS n b"
  have u: "n \<le> ?M * b" using assms blocks_cover_upper[of n b] by simp
  have l: "(?M - 1) * b < n" using assms blocks_cover_lower[of n b] by simp
  have bp: "0 < real_of_int b" using assms by simp
  have "real_of_int n \<le> real_of_int ?M * real_of_int b"
    using u by (metis of_int_le_iff of_int_mult)
  then have 1: "real_of_int n / real_of_int b \<le> real_of_int ?M"
    using bp by (simp add: pos_divide_le_eq)
  have "real_of_int (?M - 1) * real_of_int b < real_of_int n"
    using l by (metis of_int_less_iff of_int_mult)
  then have 2: "real_of_int ?M - 1 < real_of_int n / real_of_int b"
    using bp by (simp add: pos_less_divide_eq)
  show ?thesis using 1 2 by (simp add: ceiling_unique)
qed


lemma forLoop_foldl:
  "forLoop body i e acc = foldl (\<lambda>a j. body j a) acc [i..e - 1]"
proof (induction body i e acc rule: forLoop.induct)
  case (1 body i e acc)
  show ?case
  proof (cases "i < e")
    case True
    then have "[i..e - 1] = i # [i + 1..e - 1]" by (simp add: upto_rec1)
    with True 1 show ?thesis by (simp add: forLoop.simps[of body i])
  next
    case False
    then show ?thesis by (simp add: forLoop.simps[of body i])
  qed
qed

lemma visited_upto: "visited s e = [s..e - 1]"
proof -
  have "foldl (\<lambda>a j. a @ [j]) acc xs = acc @ xs" for acc and xs :: "int list"
    by (induction xs arbitrary: acc) simp_all
  then show ?thesis by (simp add: visited_def forLoop_foldl)
qed

lemma set_visited: "set (visited s e) = {s..<e}"
  by (auto simp: visited_upto)

lemma forLoop_addSample:
  "forLoop (addSample n) s e acc = acc + (\<Sum>i\<in>{s..<e}. integrand n i)"
proof (induction "addSample n" s e acc rule: forLoop.induct)
  case (1 i e acc)
  show ?case
  proof (cases "i < e")
    case True
    have "{i..<e} = insert i {i + 1..<e}" using True by auto
    then have "(\<Sum>j\<in>{i..<e}. integrand n j) = integrand n i + (\<Sum>j\<in>{i + 1..<e}. integrand n j)"
      by simp
    with True 1 show ?thesis by (simp add: forLoop.simps[of _ i] addSample_def)
  next
    case False
    then show ?thesis by (simp add: forLoop.simps[of _ i])
  qed
qed

lemma blockBounds_under_guard:
  assumes v: "valid_config n b" and k: "0 \<le> k" "k \<le> NUMBER_OF_BLOCKS n b"
  shows "blockBounds n b k = Some (k * b, min ((k + 1) * b) n)"
proof -
  let ?M = "NUMBER_OF_BLOCKS n b"
  have b: "1 \<le> b" and top: "(?M + 1) * b \<le> INT_MAX" using v by (simp_all add: valid_config_def)
  have "(k + 1) * b \<le> (?M + 1) * b" using k b by (intro mult_right_mono) simp_all
  then have e: "(k + 1) * b \<le> INT_MAX" using top by simp
  have "k * b \<le> (k + 1) * b" using b by (simp add: algebra_simps)
  then have s: "k * b \<le> INT_MAX" using e by simp
  have s0: "0 \<le> k * b" using k b by simp
  have e0: "0 \<le> (k + 1) * b" using k b by simp
  have "1 * 1 \<le> (k + 1) * b" using k b by (intro mult_mono) simp_all
  then have k1: "k + 1 \<le> INT_MAX" using e b k
    by (smt (verit) mult_le_cancel_left1 mult.commute)
  show ?thesis using s e s0 e0 k1 k
    by (auto simp: blockBounds_def fits_int_def INT_MIN_def Let_def min_def)
qed


lemma evaluatedAt_under_guard:
  assumes "valid_config n b" "0 \<le> k" "k \<le> NUMBER_OF_BLOCKS n b"
  shows "evaluatedAt n b k = Some [k * b..min ((k + 1) * b) n - 1]"
  using assms by (simp add: evaluatedAt_def blockBounds_under_guard visited_upto)

lemma blockSamples_under_guard:
  assumes "valid_config n b" "0 \<le> k" "k \<le> NUMBER_OF_BLOCKS n b"
  shows "blockSamples n b k = {k * b..<min ((k + 1) * b) n}"
  using assms by (auto simp: blockSamples_def evaluatedAt_under_guard)

lemma blockSamples_past_guard:
  assumes "NUMBER_OF_BLOCKS n b < k"
  shows "blockSamples n b k = {}"
  using assms by (simp add: blockSamples_def evaluatedAt_def)

lemma block_of_sample:
  fixes b i k :: int
  assumes b: "0 < b" and i: "k * b \<le> i" "i < (k + 1) * b"
  shows "i div b = k"
proof (rule int_div_pos_eq)
  show "i = b * k + (i - k * b)" by simp
  show "0 \<le> i - k * b" using i by simp
  show "i - k * b < b" using i by (simp add: algebra_simps)
qed

lemma sample_in_its_block:
  fixes b i :: int
  assumes b: "0 < b"
  shows "(i div b) * b \<le> i \<and> i < (i div b + 1) * b"
proof -
  define q r where "q = i div b" and "r = i mod b"
  have "i = q * b + r" by (simp add: q_def r_def)
  moreover have "0 \<le> r" "r < b" using b by (simp_all add: r_def)
  moreover have "(q + 1) * b = q * b + b" by (simp add: algebra_simps)
  ultimately have "q * b \<le> i \<and> i < (q + 1) * b" by linarith
  then show ?thesis by (simp add: q_def)
qed

lemma blocks_union:
  assumes v: "valid_config n b"
  shows "(\<Union>k\<in>{0..<NUMBER_OF_BLOCKS n b}. blockSamples n b k) = {0..<n}"
proof (rule set_eqI, rule iffI)
  let ?M = "NUMBER_OF_BLOCKS n b"
  have b: "0 < b" and n: "1 \<le> n" using v by (simp_all add: valid_config_def)
  fix i
  {
    assume "i \<in> (\<Union>k\<in>{0..<?M}. blockSamples n b k)"
    then obtain k where k: "0 \<le> k" "k < ?M" and i: "i \<in> blockSamples n b k" by auto
    have "0 \<le> k * b" using k b by simp
    then show "i \<in> {0..<n}" using i k v by (simp add: blockSamples_under_guard)
  }
  {
    assume i: "i \<in> {0..<n}"
    let ?k = "i div b"
    have k0: "0 \<le> ?k" using i b by (simp add: pos_imp_zdiv_nonneg_iff)
    have in_k: "?k * b \<le> i \<and> i < (?k + 1) * b" using b by (rule sample_in_its_block)
    have "n \<le> ?M * b" using n b blocks_cover_upper[of n b] by simp
    then have "?k * b < ?M * b" using in_k i by simp
    then have kM: "?k < ?M" using b by (simp add: mult_less_cancel_right)
    have "i \<in> blockSamples n b ?k" using v k0 kM in_k i by (simp add: blockSamples_under_guard)
    then show "i \<in> (\<Union>k\<in>{0..<?M}. blockSamples n b k)" using k0 kM by auto
  }
qed

lemma blocks_disjoint:
  assumes v: "valid_config n b"
    and k: "0 \<le> k" "k \<le> NUMBER_OF_BLOCKS n b" and k': "0 \<le> k'" "k' \<le> NUMBER_OF_BLOCKS n b"
    and ne: "k \<noteq> k'"
  shows "blockSamples n b k \<inter> blockSamples n b k' = {}"
proof -
  have b: "0 < b" using v by (simp add: valid_config_def)
  {
    fix i assume "i \<in> blockSamples n b k" "i \<in> blockSamples n b k'"
    then have "k * b \<le> i" "i < (k + 1) * b" "k' * b \<le> i" "i < (k' + 1) * b"
      using v k k' by (simp_all add: blockSamples_under_guard)
    then have "i div b = k" "i div b = k'" using b by (blast intro: block_of_sample)+
    then have False using ne by simp
  }
  then show ?thesis by auto
qed

lemma block_nonempty:
  assumes v: "valid_config n b" and k: "0 \<le> k" "k < NUMBER_OF_BLOCKS n b"
  shows "k * b < min ((k + 1) * b) n"
proof -
  have b: "0 < b" and n: "1 \<le> n" using v by (simp_all add: valid_config_def)
  have "k + 1 \<le> NUMBER_OF_BLOCKS n b - 1 + 1" using k by simp
  then have "k \<le> NUMBER_OF_BLOCKS n b - 1" by simp
  then have "k * b \<le> (NUMBER_OF_BLOCKS n b - 1) * b" using b by (intro mult_right_mono) simp_all
  moreover have "(NUMBER_OF_BLOCKS n b - 1) * b < n" using blocks_cover_lower[of n b] n b by simp
  ultimately have "k * b < n" by (rule le_less_trans)
  moreover have "k * b < (k + 1) * b" using b by (simp add: algebra_simps)
  ultimately show ?thesis by simp
qed

lemma block_past_end:
  assumes v: "valid_config n b" and k: "NUMBER_OF_BLOCKS n b \<le> k"
  shows "min ((k + 1) * b) n \<le> k * b"
proof -
  have b: "0 < b" and n: "1 \<le> n" using v by (simp_all add: valid_config_def)
  have "NUMBER_OF_BLOCKS n b * b \<le> k * b" using k b by (intro mult_right_mono) simp_all
  moreover have "n \<le> NUMBER_OF_BLOCKS n b * b" using blocks_cover_upper[of n b] n b by simp
  ultimately have "n \<le> k * b" by (rule order_trans[rotated])
  then show ?thesis by simp
qed

lemma blockBounds_empty_past_end:
  assumes v: "valid_config n b" and k: "NUMBER_OF_BLOCKS n b \<le> k"
    and se: "blockBounds n b k = Some (s, e)"
  shows "e \<le> s"
proof -
  have "s = k * b" "e = min ((k + 1) * b) n"
    using se by (auto simp: blockBounds_def Let_def min_def split: if_splits)
  then show ?thesis using block_past_end[OF v k] by simp
qed

section \<open>Facts about the loop test\<close>

lemma evaluatedAt_past_end:
  assumes v: "valid_config n b" and k: "NUMBER_OF_BLOCKS n b \<le> k"
  shows "evaluatedAt n b k = Some []"
proof (cases "k = NUMBER_OF_BLOCKS n b")
  case True
  have M0: "0 \<le> NUMBER_OF_BLOCKS n b"
    using v by (simp add: valid_config_def NUMBER_OF_BLOCKS_div pos_imp_zdiv_nonneg_iff)
  have "min ((k + 1) * b) n \<le> k * b" using v k by (rule block_past_end)
  then have "[k * b..min ((k + 1) * b) n - 1] = []" by simp
  then show ?thesis using v True M0 by (simp add: evaluatedAt_under_guard)
next
  case False
  then show ?thesis using k by (simp add: evaluatedAt_def)
qed

lemma loop_test_step:
  assumes "pc (workers s ! t) = AtLoopTest" and "t < length (workers s)"
  shows "workers (calculateIteration_step n b t s) ! t =
     (if currentBlock (workers s ! t) \<le> NUMBER_OF_BLOCKS n b
      then (case blockBounds n b (currentBlock (workers s ! t)) of
              None \<Rightarrow> (workers s ! t)\<lparr>pc := Overflow\<rparr>
            | Some (startIteration, endIteration) \<Rightarrow>
                (workers s ! t)\<lparr>pc := AtSetEvent,
                  threadPi := forLoop (addSample n) startIteration endIteration (threadPi (workers s ! t))\<rparr>)
      else (workers s ! t)\<lparr>pc := AtFold\<rparr>)"
  using assms
  by (simp add: calculateIteration_step_def Let_def setWorker_def split: option.split)

lemma loop_test_accumulates:
  assumes e: "evaluatedAt n b (currentBlock (workers s ! t)) = Some xs"
    and pc: "pc (workers s ! t) = AtLoopTest" and t: "t < length (workers s)"
  shows "threadPi (workers (calculateIteration_step n b t s) ! t)
           = foldl (\<lambda>acc i. addSample n i acc) (threadPi (workers s ! t)) xs"
proof (cases "currentBlock (workers s ! t) \<le> NUMBER_OF_BLOCKS n b")
  case True
  then obtain st en where bb: "blockBounds n b (currentBlock (workers s ! t)) = Some (st, en)"
    and xs: "xs = visited st en"
    using e by (auto simp: evaluatedAt_def split: option.splits)
  show ?thesis using True bb
    by (simp add: loop_test_step[OF pc t] xs visited_upto forLoop_foldl)
next
  case False
  then have "xs = []" using e by (simp add: evaluatedAt_def)
  then show ?thesis using False by (simp add: loop_test_step[OF pc t])
qed

section \<open>Facts about the coordinator\<close>

lemma length_workers_ResumeThread [simp]:
  "length (workers (ResumeThread t s)) = length (workers s)"
  by (simp add: ResumeThread_def setWorker_def Let_def)

lemma workers_createAll:
  "workers (createAll is s) = workers s @ map createdThread is"
  by (induction "is" arbitrary: s) simp_all

lemma events_createAll:
  "events (createAll is s) = events s @ replicate (length is) False"
  by (induction "is" arbitrary: s) (simp_all add: replicate_app_Cons_same)

lemma nextBlock_createAll [simp]: "nextBlock (createAll is s) = nextBlock s"
  by (induction "is" arbitrary: s) simp_all

lemma pi_global_createAll [simp]: "pi_global (createAll is s) = pi_global s"
  by (induction "is" arbitrary: s) simp_all

lemma workers_setup: "workers (calculatePi_setup T) = map createdThread [0..<T]"
  by (simp add: calculatePi_setup_def workers_createAll globals_def)

lemma events_setup: "events (calculatePi_setup T) = replicate T False"
  by (simp add: calculatePi_setup_def events_createAll globals_def)

lemma nextBlock_setup: "nextBlock (calculatePi_setup T) = int T"
  by (simp add: calculatePi_setup_def)

lemma pi_global_setup: "pi_global (calculatePi_setup T) = 0"
  by (simp add: calculatePi_setup_def globals_def)

lemma resumeEach_in_bounds:
  assumes "\<forall>i\<in>set is. i < length (workers s)"
  shows "\<exists>s'. resumeEach is s = Inr s' \<and> length (workers s') = length (workers s)"
  using assms
proof (induction "is" arbitrary: s)
  case Nil
  then show ?case by simp
next
  case (Cons a "is")
  have "\<forall>i\<in>set is. i < length (workers (ResumeThread a s))" using Cons.prems by simp
  from Cons.IH[OF this] show ?case using Cons.prems by simp
qed

lemma resumeEach_past_end:
  assumes "\<forall>i\<in>set is. i < length (workers s)" and "length (workers s) \<le> j"
  shows "resumeEach (is @ [j]) s = Inl (OutOfBounds j)"
  using assms by (induction "is" arbitrary: s) simp_all

section \<open>The invariant holds in every reachable state\<close>

lemma sum_list_map_update:
  fixes g :: "'a \<Rightarrow> 'b::ab_group_add"
  assumes "t < length xs"
  shows "sum_list (map g (xs[t := x])) = sum_list (map g xs) - g (xs ! t) + g x"
  using assms
proof (induction xs arbitrary: t)
  case Nil
  then show ?case by simp
next
  case (Cons a xs)
  then show ?case by (cases t) (simp_all add: algebra_simps)
qed

lemma exhausted_bounds: "0 \<le> exhausted n b w \<and> exhausted n b w \<le> 1"
  by (simp add: exhausted_def)

lemma sum_exhausted_le: "(\<Sum>w\<leftarrow>ws. exhausted n b w) \<le> int (length ws)"
proof (induction ws)
  case Nil
  then show ?case by simp
next
  case (Cons w ws)
  have "exhausted n b w \<le> 1" by (simp add: exhausted_def)
  with Cons show ?case by simp
qed

lemma worker_ok_mono:
  assumes "worker_ok n b c w" "c \<le> c'"
  shows "worker_ok n b c' w"
  using assms by (simp add: worker_ok_def)

lemma invariant_update:
  assumes i: "invariant n b T s" and t: "t < length (workers s)"
    and ws: "workers s' = (workers s)[t := w']"
    and ev: "length (events s') = length (events s)"
    and c: "nextBlock s \<le> nextBlock s'"
    and ok: "worker_ok n b (nextBlock s') w'"
    and ex: "nextBlock s' - nextBlock s \<le> exhausted n b w' - exhausted n b (workers s ! t)
               \<or> nextBlock s' \<le> NUMBER_OF_BLOCKS n b + 1 \<and> exhausted n b (workers s ! t) \<le> exhausted n b w'"
    and sm: "pi_global s' - pi_global s + owed n b w' - owed n b (workers s ! t)
               = (\<Sum>k\<in>{nextBlock s..<nextBlock s'}. blockSum n b k)"
  shows "invariant n b T s'"
proof -
  let ?M = "NUMBER_OF_BLOCKS n b"
  have len: "length (workers s) = T" "length (events s) = T"
    and oks: "\<forall>w\<in>set (workers s). worker_ok n b (nextBlock s) w"
    and lo: "int T \<le> nextBlock s"
    and hi: "nextBlock s \<le> ?M + 1 + (\<Sum>w\<leftarrow>workers s. exhausted n b w)"
    and tot: "pi_global s + (\<Sum>w\<leftarrow>workers s. owed n b w) = (\<Sum>k\<in>{0..<nextBlock s}. blockSum n b k)"
    using i by (simp_all add: invariant_def)
  have 1: "length (workers s') = T" "length (events s') = T" using len ws ev by simp_all
  have 2: "\<forall>w\<in>set (workers s'). worker_ok n b (nextBlock s') w"
  proof
    fix w assume "w \<in> set (workers s')"
    then have "w = w' \<or> w \<in> set (workers s)"
      unfolding ws using set_update_subset_insert[of "workers s" t w'] by auto
    then show "worker_ok n b (nextBlock s') w" using ok oks c worker_ok_mono by blast
  qed
  have 3: "int T \<le> nextBlock s'" using lo c by simp
  have e': "(\<Sum>w\<leftarrow>workers s'. exhausted n b w)
      = (\<Sum>w\<leftarrow>workers s. exhausted n b w) - exhausted n b (workers s ! t) + exhausted n b w'"
    unfolding ws using t by (rule sum_list_map_update)
  have nonneg: "0 \<le> (\<Sum>w\<leftarrow>workers s'. exhausted n b w)"
    by (rule sum_list_nonneg) (auto simp: exhausted_def)
  have 4: "nextBlock s' \<le> ?M + 1 + (\<Sum>w\<leftarrow>workers s'. exhausted n b w)"
    using ex
  proof
    assume "nextBlock s' - nextBlock s \<le> exhausted n b w' - exhausted n b (workers s ! t)"
    then show ?thesis using hi e' by linarith
  next
    assume "nextBlock s' \<le> ?M + 1 \<and> exhausted n b (workers s ! t) \<le> exhausted n b w'"
    then show ?thesis using nonneg by linarith
  qed
  have o': "(\<Sum>w\<leftarrow>workers s'. owed n b w)
      = (\<Sum>w\<leftarrow>workers s. owed n b w) - owed n b (workers s ! t) + owed n b w'"
    unfolding ws using t by (rule sum_list_map_update)
  have c0: "0 \<le> nextBlock s" using lo by simp
  have "{0..<nextBlock s'} = {0..<nextBlock s} \<union> {nextBlock s..<nextBlock s'}"
    using c c0 by auto
  moreover have "{0..<nextBlock s} \<inter> {nextBlock s..<nextBlock s'} = {}" by auto
  ultimately have split: "(\<Sum>k\<in>{0..<nextBlock s'}. blockSum n b k)
      = (\<Sum>k\<in>{0..<nextBlock s}. blockSum n b k) + (\<Sum>k\<in>{nextBlock s..<nextBlock s'}. blockSum n b k)"
    by (simp add: sum.union_disjoint)
  have 5: "pi_global s' + (\<Sum>w\<leftarrow>workers s'. owed n b w) = (\<Sum>k\<in>{0..<nextBlock s'}. blockSum n b k)"
    using tot sm o' split by linarith
  show ?thesis using 1 2 3 4 5 by (simp add: invariant_def)
qed

lemma sum_exhausted_lt:
  assumes "t < length ws" "exhausted n b (ws ! t) = 0"
  shows "(\<Sum>w\<leftarrow>ws. exhausted n b w) \<le> int (length ws) - 1"
proof -
  have "(\<Sum>w\<leftarrow>ws[t := ws ! t]. exhausted n b w) = (\<Sum>w\<leftarrow>ws. exhausted n b w)" by simp
  have "ws = take t ws @ ws ! t # drop (Suc t) ws" using assms(1) by (simp add: id_take_nth_drop)
  then have "(\<Sum>w\<leftarrow>ws. exhausted n b w)
      = (\<Sum>w\<leftarrow>take t ws. exhausted n b w) + exhausted n b (ws ! t) + (\<Sum>w\<leftarrow>drop (Suc t) ws. exhausted n b w)"
    by (metis (no_types, lifting) add.assoc map_append list.simps(9) sum_list.Cons sum_list_append)
  moreover have "(\<Sum>w\<leftarrow>take t ws. exhausted n b w) \<le> int (length (take t ws))"
    by (rule sum_exhausted_le)
  moreover have "(\<Sum>w\<leftarrow>drop (Suc t) ws. exhausted n b w) \<le> int (length (drop (Suc t) ws))"
    by (rule sum_exhausted_le)
  ultimately show ?thesis using assms by simp
qed

lemma claim_does_not_wrap:
  assumes v: "valid_run n b T" and i: "invariant n b T s"
    and t: "t < length (workers s)" and pc: "pc (workers s ! t) = AtClaim"
  shows "wrap_long (nextBlock s + 1) = nextBlock s + 1"
proof -
  let ?M = "NUMBER_OF_BLOCKS n b"
  have len: "length (workers s) = T"
    and oks: "\<forall>w\<in>set (workers s). worker_ok n b (nextBlock s) w"
    and hi: "nextBlock s \<le> ?M + 1 + (\<Sum>w\<leftarrow>workers s. exhausted n b w)"
    using i by (simp_all add: invariant_def)
  have "worker_ok n b (nextBlock s) (workers s ! t)" using oks t by simp
  then have "currentBlock (workers s ! t) \<le> ?M" using pc by (simp add: worker_ok_def)
  then have "exhausted n b (workers s ! t) = 0" by (simp add: exhausted_def)
  then have "(\<Sum>w\<leftarrow>workers s. exhausted n b w) \<le> int T - 1"
    using sum_exhausted_lt[OF t] len by simp
  then have "nextBlock s + 1 \<le> int T + ?M + 1" using hi by linarith
  moreover have "int T + ?M + 1 \<le> INT_MAX" using v by (simp add: valid_run_def)
  ultimately show ?thesis by (simp add: wrap_long_def)
qed

lemma blockSum_under_guard:
  assumes "valid_config n b" "0 \<le> k" "k \<le> NUMBER_OF_BLOCKS n b"
  shows "blockSum n b k = (\<Sum>i\<in>{k * b..<min ((k + 1) * b) n}. integrand n i)"
  using assms by (simp add: blockSum_def blockSamples_under_guard)

lemma blockSum_past_guard:
  assumes "NUMBER_OF_BLOCKS n b < k"
  shows "blockSum n b k = 0"
  using assms by (simp add: blockSum_def blockSamples_past_guard)

lemma invariant_run:
  assumes v: "valid_run n b T" and i: "invariant n b T s"
    and t: "t < length (workers s)" and r: "runnable (workers s ! t)"
  shows "invariant n b T (calculateIteration_step n b t s)"
proof -
  let ?M = "NUMBER_OF_BLOCKS n b"
  let ?w = "workers s ! t"
  let ?s' = "calculateIteration_step n b t s"
  have vc: "valid_config n b" using v by (simp add: valid_run_def)
  have oks: "\<forall>w\<in>set (workers s). worker_ok n b (nextBlock s) w"
    and lo: "int T \<le> nextBlock s"
    using i by (simp_all add: invariant_def)
  have ok: "worker_ok n b (nextBlock s) ?w" using oks t by simp
  have cb0: "0 \<le> currentBlock ?w" and cbc: "currentBlock ?w < nextBlock s"
    and sc: "suspendCount ?w \<le> 1"
    using ok by (simp_all add: worker_ok_def)
  have run: "suspendCount ?w = 0" "pc ?w \<noteq> Returned" "pc ?w \<noteq> Overflow"
    using r by (simp_all add: runnable_def)
  show ?thesis
  proof (cases "pc ?w")
    case AtLoopTest
    show ?thesis
    proof (cases "currentBlock ?w \<le> ?M")
      case True
      let ?st = "currentBlock ?w * b" and ?en = "min ((currentBlock ?w + 1) * b) n"
      let ?w' = "?w\<lparr>pc := AtSetEvent, threadPi := forLoop (addSample n) ?st ?en (threadPi ?w)\<rparr>"
      have bb: "blockBounds n b (currentBlock ?w) = Some (?st, ?en)"
        using vc cb0 True by (rule blockBounds_under_guard)
      have s': "workers ?s' = (workers s)[t := ?w']" "events ?s' = events s"
        "nextBlock ?s' = nextBlock s" "pi_global ?s' = pi_global s"
        using AtLoopTest True bb
        by (simp_all add: calculateIteration_step_def Let_def setWorker_def)
      have tp: "threadPi ?w' = threadPi ?w + blockSum n b (currentBlock ?w)"
        using vc cb0 True by (simp add: forLoop_addSample blockSum_under_guard)
      show ?thesis
      proof (rule invariant_update[OF i t s'(1)])
        show "length (events ?s') = length (events s)" using s' by simp
        show "nextBlock s \<le> nextBlock ?s'" using s' by simp
        show "worker_ok n b (nextBlock ?s') ?w'"
          using ok True s' by (simp add: worker_ok_def)
        show "nextBlock ?s' - nextBlock s \<le> exhausted n b ?w' - exhausted n b ?w
               \<or> nextBlock ?s' \<le> ?M + 1 \<and> exhausted n b ?w \<le> exhausted n b ?w'"
          using s' by (simp add: exhausted_def)
        have "owed n b ?w' = owed n b ?w" using AtLoopTest tp by (simp add: owed_def)
        then show "pi_global ?s' - pi_global s + owed n b ?w' - owed n b ?w
               = (\<Sum>k\<in>{nextBlock s..<nextBlock ?s'}. blockSum n b k)"
          using s' by simp
      qed
    next
      case False
      let ?w' = "?w\<lparr>pc := AtFold\<rparr>"
      have s': "workers ?s' = (workers s)[t := ?w']" "events ?s' = events s"
        "nextBlock ?s' = nextBlock s" "pi_global ?s' = pi_global s"
        using AtLoopTest False
        by (simp_all add: calculateIteration_step_def Let_def setWorker_def)
      have z: "blockSum n b (currentBlock ?w) = 0" using False by (simp add: blockSum_past_guard)
      show ?thesis
      proof (rule invariant_update[OF i t s'(1)])
        show "length (events ?s') = length (events s)" using s' by simp
        show "nextBlock s \<le> nextBlock ?s'" using s' by simp
        show "worker_ok n b (nextBlock ?s') ?w'"
          using ok False s' by (simp add: worker_ok_def)
        show "nextBlock ?s' - nextBlock s \<le> exhausted n b ?w' - exhausted n b ?w
               \<or> nextBlock ?s' \<le> ?M + 1 \<and> exhausted n b ?w \<le> exhausted n b ?w'"
          using s' by (simp add: exhausted_def)
        have "owed n b ?w' = owed n b ?w" using AtLoopTest z by (simp add: owed_def)
        then show "pi_global ?s' - pi_global s + owed n b ?w' - owed n b ?w
               = (\<Sum>k\<in>{nextBlock s..<nextBlock ?s'}. blockSum n b k)"
          using s' by simp
      qed
    qed
  next
    case AtSetEvent
    let ?w' = "?w\<lparr>pc := AtCheckNext\<rparr>"
    have s': "workers ?s' = (workers s)[t := ?w']" "events ?s' = (events s)[t := True]"
      "nextBlock ?s' = nextBlock s" "pi_global ?s' = pi_global s"
      using AtSetEvent by (simp_all add: calculateIteration_step_def Let_def setWorker_def)
    show ?thesis
    proof (rule invariant_update[OF i t s'(1)])
      show "length (events ?s') = length (events s)" using s' by simp
      show "nextBlock s \<le> nextBlock ?s'" using s' by simp
      show "worker_ok n b (nextBlock ?s') ?w'"
        using ok AtSetEvent s' by (simp add: worker_ok_def)
      show "nextBlock ?s' - nextBlock s \<le> exhausted n b ?w' - exhausted n b ?w
             \<or> nextBlock ?s' \<le> ?M + 1 \<and> exhausted n b ?w \<le> exhausted n b ?w'"
        using s' by (simp add: exhausted_def)
      have "owed n b ?w' = owed n b ?w" using AtSetEvent by (simp add: owed_def)
      then show "pi_global ?s' - pi_global s + owed n b ?w' - owed n b ?w
             = (\<Sum>k\<in>{nextBlock s..<nextBlock ?s'}. blockSum n b k)"
        using s' by simp
    qed
  next
    case AtCheckNext
    let ?w' = "?w\<lparr>pc := (if nextBlock s \<le> ?M then AtSuspend else AtClaim)\<rparr>"
    have s': "workers ?s' = (workers s)[t := ?w']" "events ?s' = events s"
      "nextBlock ?s' = nextBlock s" "pi_global ?s' = pi_global s"
      using AtCheckNext by (simp_all add: calculateIteration_step_def Let_def setWorker_def)
    show ?thesis
    proof (rule invariant_update[OF i t s'(1)])
      show "length (events ?s') = length (events s)" using s' by simp
      show "nextBlock s \<le> nextBlock ?s'" using s' by simp
      show "worker_ok n b (nextBlock ?s') ?w'"
        using ok AtCheckNext s' by (simp add: worker_ok_def)
      show "nextBlock ?s' - nextBlock s \<le> exhausted n b ?w' - exhausted n b ?w
             \<or> nextBlock ?s' \<le> ?M + 1 \<and> exhausted n b ?w \<le> exhausted n b ?w'"
        using s' by (simp add: exhausted_def)
      have "owed n b ?w' = owed n b ?w" using AtCheckNext by (simp add: owed_def)
      then show "pi_global ?s' - pi_global s + owed n b ?w' - owed n b ?w
             = (\<Sum>k\<in>{nextBlock s..<nextBlock ?s'}. blockSum n b k)"
        using s' by simp
    qed
  next
    case AtSuspend
    let ?w' = "?w\<lparr>pc := AtClaim, suspendCount := suspendCount ?w + 1\<rparr>"
    have s': "workers ?s' = (workers s)[t := ?w']" "events ?s' = events s"
      "nextBlock ?s' = nextBlock s" "pi_global ?s' = pi_global s"
      using AtSuspend by (simp_all add: calculateIteration_step_def Let_def setWorker_def)
    show ?thesis
    proof (rule invariant_update[OF i t s'(1)])
      show "length (events ?s') = length (events s)" using s' by simp
      show "nextBlock s \<le> nextBlock ?s'" using s' by simp
      show "worker_ok n b (nextBlock ?s') ?w'"
        using ok AtSuspend s' run by (simp add: worker_ok_def)
      show "nextBlock ?s' - nextBlock s \<le> exhausted n b ?w' - exhausted n b ?w
             \<or> nextBlock ?s' \<le> ?M + 1 \<and> exhausted n b ?w \<le> exhausted n b ?w'"
        using s' by (simp add: exhausted_def)
      have "owed n b ?w' = owed n b ?w" using AtSuspend by (simp add: owed_def)
      then show "pi_global ?s' - pi_global s + owed n b ?w' - owed n b ?w
             = (\<Sum>k\<in>{nextBlock s..<nextBlock ?s'}. blockSum n b k)"
        using s' by simp
    qed
  next
    case AtClaim
    let ?w' = "?w\<lparr>pc := AtLoopTest, currentBlock := nextBlock s\<rparr>"
    have nw: "wrap_long (nextBlock s + 1) = nextBlock s + 1"
      using v i t AtClaim by (rule claim_does_not_wrap)
    have s': "workers ?s' = (workers s)[t := ?w']" "events ?s' = events s"
      "nextBlock ?s' = nextBlock s + 1" "pi_global ?s' = pi_global s"
      using AtClaim nw by (simp_all add: calculateIteration_step_def Let_def setWorker_def)
    have cbM: "currentBlock ?w \<le> ?M" using ok AtClaim by (simp add: worker_ok_def)
    show ?thesis
    proof (rule invariant_update[OF i t s'(1)])
      show "length (events ?s') = length (events s)" using s' by simp
      show "nextBlock s \<le> nextBlock ?s'" using s' by simp
      show "worker_ok n b (nextBlock ?s') ?w'"
        using ok lo s' by (simp add: worker_ok_def)
      show "nextBlock ?s' - nextBlock s \<le> exhausted n b ?w' - exhausted n b ?w
             \<or> nextBlock ?s' \<le> ?M + 1 \<and> exhausted n b ?w \<le> exhausted n b ?w'"
        using s' cbM by (simp add: exhausted_def)
      have "owed n b ?w' - owed n b ?w = blockSum n b (nextBlock s)"
        using AtClaim by (simp add: owed_def)
      moreover have "{nextBlock s..<nextBlock s + 1} = {nextBlock s}" by auto
      ultimately show "pi_global ?s' - pi_global s + owed n b ?w' - owed n b ?w
             = (\<Sum>k\<in>{nextBlock s..<nextBlock ?s'}. blockSum n b k)"
        using s' by simp
    qed
  next
    case AtFold
    let ?w' = "?w\<lparr>pc := Returned\<rparr>"
    have s': "workers ?s' = (workers s)[t := ?w']" "events ?s' = events s"
      "nextBlock ?s' = nextBlock s" "pi_global ?s' = pi_global s + threadPi ?w"
      using AtFold by (simp_all add: calculateIteration_step_def Let_def setWorker_def)
    show ?thesis
    proof (rule invariant_update[OF i t s'(1)])
      show "length (events ?s') = length (events s)" using s' by simp
      show "nextBlock s \<le> nextBlock ?s'" using s' by simp
      show "worker_ok n b (nextBlock ?s') ?w'"
        using ok AtFold s' by (simp add: worker_ok_def)
      show "nextBlock ?s' - nextBlock s \<le> exhausted n b ?w' - exhausted n b ?w
             \<or> nextBlock ?s' \<le> ?M + 1 \<and> exhausted n b ?w \<le> exhausted n b ?w'"
        using s' by (simp add: exhausted_def)
      have "owed n b ?w' = 0" "owed n b ?w = threadPi ?w" using AtFold by (simp_all add: owed_def)
      then show "pi_global ?s' - pi_global s + owed n b ?w' - owed n b ?w
             = (\<Sum>k\<in>{nextBlock s..<nextBlock ?s'}. blockSum n b k)"
        using s' by simp
    qed
  next
    case Returned
    then show ?thesis using run by simp
  next
    case Overflow
    then show ?thesis using run by simp
  qed
qed

lemma invariant_resume:
  assumes i: "invariant n b T s" and t: "t < length (workers s)"
  shows "invariant n b T (ResumeThread t s)"
proof -
  let ?w = "workers s ! t"
  let ?w' = "?w\<lparr>suspendCount := suspendCount ?w - 1\<rparr>"
  let ?s' = "ResumeThread t s"
  have s': "workers ?s' = (workers s)[t := ?w']" "events ?s' = events s"
    "nextBlock ?s' = nextBlock s" "pi_global ?s' = pi_global s"
    by (simp_all add: ResumeThread_def Let_def setWorker_def)
  have "\<forall>w\<in>set (workers s). worker_ok n b (nextBlock s) w" using i by (simp add: invariant_def)
  then have ok: "worker_ok n b (nextBlock s) ?w" using t by simp
  show ?thesis
  proof (rule invariant_update[OF i t s'(1)])
    show "length (events ?s') = length (events s)" using s' by simp
    show "nextBlock s \<le> nextBlock ?s'" using s' by simp
    show "worker_ok n b (nextBlock ?s') ?w'" using ok s' by (simp add: worker_ok_def)
    show "nextBlock ?s' - nextBlock s \<le> exhausted n b ?w' - exhausted n b ?w
           \<or> nextBlock ?s' \<le> NUMBER_OF_BLOCKS n b + 1 \<and> exhausted n b ?w \<le> exhausted n b ?w'"
      using s' by (simp add: exhausted_def)
    have "owed n b ?w' = owed n b ?w" by (simp add: owed_def)
    then show "pi_global ?s' - pi_global s + owed n b ?w' - owed n b ?w
           = (\<Sum>k\<in>{nextBlock s..<nextBlock ?s'}. blockSum n b k)"
      using s' by simp
  qed
qed

lemma invariant_reset:
  assumes "invariant n b T s"
  shows "invariant n b T (ResetEvent t s)"
  using assms by (simp add: invariant_def ResetEvent_def)

lemma invariant_step:
  assumes "valid_run n b T" "invariant n b T s"
  shows "invariant n b T (step n b a s)"
  using assms by (cases a) (simp_all add: invariant_run invariant_resume invariant_reset)

lemma invariant_exec:
  assumes "valid_run n b T" "invariant n b T s"
  shows "invariant n b T (exec n b sched s)"
  using assms by (induction sched arbitrary: s) (simp_all add: invariant_step)

lemma NUMBER_OF_BLOCKS_pos:
  assumes "valid_config n b"
  shows "1 \<le> NUMBER_OF_BLOCKS n b"
proof -
  have "1 \<le> n" "0 < b" using assms by (simp_all add: valid_config_def)
  then have "n \<le> NUMBER_OF_BLOCKS n b * b" "0 < b" "0 < n"
    using blocks_cover_upper[of n b] by simp_all
  then have "0 < NUMBER_OF_BLOCKS n b * b" by linarith
  then have "0 < NUMBER_OF_BLOCKS n b" using \<open>0 < b\<close> by (simp add: zero_less_mult_iff)
  then show ?thesis by simp
qed

lemma created_exhausted:
  assumes "0 \<le> NUMBER_OF_BLOCKS n b"
  shows "int T \<le> NUMBER_OF_BLOCKS n b + 1 + (\<Sum>w\<leftarrow>map createdThread [0..<T]. exhausted n b w)"
proof (induction T)
  case 0
  then show ?case using assms by simp
next
  case (Suc T)
  have nn: "0 \<le> (\<Sum>w\<leftarrow>map createdThread [0..<T]. exhausted n b w)"
    by (rule sum_list_nonneg) (auto simp: exhausted_def)
  show ?case
  proof (cases "NUMBER_OF_BLOCKS n b < int T")
    case True
    then have "exhausted n b (createdThread T) = 1" by (simp add: exhausted_def createdThread_def)
    with Suc show ?thesis by simp
  next
    case False
    then have "exhausted n b (createdThread T) = 0" by (simp add: exhausted_def createdThread_def)
    with False nn show ?thesis by simp
  qed
qed

lemma created_owed:
  "(\<Sum>w\<leftarrow>map createdThread [0..<T]. owed n b w) = (\<Sum>k\<in>{0..<int T}. blockSum n b k)"
proof (induction T)
  case 0
  then show ?case by simp
next
  case (Suc T)
  have "{0..<int (Suc T)} = insert (int T) {0..<int T}" by auto
  then have "(\<Sum>k\<in>{0..<int (Suc T)}. blockSum n b k)
      = blockSum n b (int T) + (\<Sum>k\<in>{0..<int T}. blockSum n b k)" by simp
  moreover have "owed n b (createdThread T) = blockSum n b (int T)"
    by (simp add: owed_def createdThread_def)
  ultimately show ?case using Suc by simp
qed

lemma invariant_setup:
  assumes v: "valid_run n b T"
  shows "invariant n b T (calculatePi_setup T)"
proof -
  have vc: "valid_config n b" using v by (simp add: valid_run_def)
  have M: "0 \<le> NUMBER_OF_BLOCKS n b" using NUMBER_OF_BLOCKS_pos[OF vc] by simp
  have "\<forall>w\<in>set (map createdThread [0..<T]). worker_ok n b (int T) w"
    by (auto simp: worker_ok_def createdThread_def)
  then show ?thesis
    using created_exhausted[OF M, of T] created_owed[of n b T]
    by (simp add: invariant_def workers_setup events_setup nextBlock_setup pi_global_setup)
qed

lemma invariant_reachable:
  assumes "valid_run n b T"
  shows "invariant n b T (exec n b sched (calculatePi_setup T))"
  using assms by (simp add: invariant_exec invariant_setup)

section \<open>The counter and the dispatch log\<close>

lemma nextBlock_setWorker [simp]: "nextBlock (setWorker t w s) = nextBlock s"
  by (simp add: setWorker_def)

lemma nextBlock_run:
  assumes v: "valid_run n b T" and i: "invariant n b T s"
    and t: "t < length (workers s)"
  shows "nextBlock (calculateIteration_step n b t s)
           = (if pc (workers s ! t) = AtClaim then nextBlock s + 1 else nextBlock s)"
proof (cases "pc (workers s ! t)")
  case AtLoopTest
  then show ?thesis
    by (simp add: calculateIteration_step_def Let_def split: option.split prod.split)
next
  case AtClaim
  then show ?thesis
    using claim_does_not_wrap[OF v i t AtClaim]
    by (simp add: calculateIteration_step_def Let_def)
qed (simp_all add: calculateIteration_step_def Let_def)

lemma nextBlock_step:
  assumes v: "valid_run n b T" and i: "invariant n b T s"
  shows "nextBlock (step n b a s) = nextBlock s + int (length (claimed a s))"
proof (cases a)
  case (Run t)
  then show ?thesis using nextBlock_run[OF v i] by simp
next
  case (Resume t)
  then show ?thesis by (simp add: ResumeThread_def Let_def)
next
  case (Reset t)
  then show ?thesis by (simp add: ResetEvent_def)
qed

lemma nextBlock_exec:
  assumes v: "valid_run n b T" and i: "invariant n b T s"
  shows "nextBlock (exec n b sched s) = nextBlock s + int (length (dispatchLog n b sched s))"
  using i
proof (induction sched arbitrary: s)
  case Nil
  then show ?case by simp
next
  case (Cons a sched)
  have "invariant n b T (step n b a s)" using v Cons.prems by (rule invariant_step)
  from Cons.IH[OF this] show ?case using nextBlock_step[OF v Cons.prems, of a] by simp
qed

lemma exec_append: "exec n b (xs @ ys) s = exec n b ys (exec n b xs s)"
  by (induction xs arbitrary: s) simp_all

lemma dispatchLog_append:
  "dispatchLog n b (xs @ ys) s = dispatchLog n b xs s @ dispatchLog n b ys (exec n b xs s)"
  by (induction xs arbitrary: s) simp_all

lemma nextBlock_upper:
  assumes "invariant n b T s"
  shows "nextBlock s \<le> int T + NUMBER_OF_BLOCKS n b + 1"
proof -
  have "nextBlock s \<le> NUMBER_OF_BLOCKS n b + 1 + (\<Sum>w\<leftarrow>workers s. exhausted n b w)"
    and "length (workers s) = T"
    using assms by (simp_all add: invariant_def)
  then show ?thesis using sum_exhausted_le[of n b "workers s"] by linarith
qed

lemma NUMBER_OF_BLOCKS_numerals: "NUMBER_OF_BLOCKS 100000000 8307040 = 13"
  using NUMBER_OF_BLOCKS_program by (simp add: N_def BLOCK_SIZE_def)

lemmas run_simps =
  calculateIteration_step_def Let_def setWorker_def ResumeThread_def ResetEvent_def
  runnable_def blockBounds_def fits_int_def INT_MAX_def INT_MIN_def wrap_long_def

lemma valid_run_program_13: "valid_run N BLOCK_SIZE 13"
  using valid_config_program by (simp add: valid_run_def NUMBER_OF_BLOCKS_program INT_MAX_def)

lemma claimed_cases:
  "claimed a s = [] \<or> (\<exists>t. claimed a s = [(t, nextBlock s)] \<and> t < length (workers s))"
  by (cases a) simp_all

lemma length_workers_step:
  assumes "valid_run n b T" "invariant n b T s"
  shows "length (workers (step n b a s)) = length (workers s)"
proof -
  have "invariant n b T (step n b a s)" using assms by (rule invariant_step)
  then show ?thesis using assms(2) by (simp add: invariant_def)
qed

lemma dispatchLog_values:
  assumes v: "valid_run n b T" and i: "invariant n b T s"
  shows "map snd (dispatchLog n b sched s) = [nextBlock s..nextBlock (exec n b sched s) - 1]
    \<and> (\<forall>p\<in>set (dispatchLog n b sched s). fst p < T)"
  using i
proof (induction sched arbitrary: s)
  case Nil
  then show ?case by simp
next
  case (Cons a sched)
  let ?s' = "step n b a s"
  have i': "invariant n b T ?s'" using v Cons.prems by (rule invariant_step)
  have len: "length (workers s) = T" using Cons.prems by (simp add: invariant_def)
  have nb: "nextBlock ?s' = nextBlock s + int (length (claimed a s))"
    using v Cons.prems by (rule nextBlock_step)
  have ge: "nextBlock ?s' \<le> nextBlock (exec n b sched ?s')"
    using nextBlock_exec[OF v i', of sched] by simp
  note IH = Cons.IH[OF i']
  consider "claimed a s = []" | t where "claimed a s = [(t, nextBlock s)]" "t < length (workers s)"
    using claimed_cases[of a s] by blast
  then show ?case
  proof cases
    case 1
    then show ?thesis using IH nb by simp
  next
    case 2
    have "nextBlock s \<le> nextBlock (exec n b sched ?s') - 1" using nb ge 2 by simp
    then have "[nextBlock s..nextBlock (exec n b sched ?s') - 1]
        = nextBlock s # [nextBlock s + 1..nextBlock (exec n b sched ?s') - 1]"
      by (rule upto_rec1)
    then show ?thesis using IH nb 2 len by simp
  qed
qed

lemma upto_int_upt: "map int [0..<T] = [0..int T - 1]"
proof (induction T)
  case 0
  then show ?case by simp
next
  case (Suc T)
  have "[0..int (Suc T) - 1] = [0..int T - 1] @ [int T]"
    using upto_rec2[of 0 "int T"] by simp
  with Suc show ?case by simp
qed

lemma upto_split_at:
  fixes a b c :: int
  assumes "a \<le> b" "b \<le> c + 1"
  shows "[a..b - 1] @ [b..c] = [a..c]"
proof (cases "b \<le> c")
  case True
  show ?thesis using upto_split1[OF assms(1) True] by (rule sym)
next
  case False
  then have "b = c + 1" using assms by linarith
  then show ?thesis by simp
qed

lemma count_list_distinct:
  assumes "distinct xs"
  shows "count_list xs x = (if x \<in> set xs then 1 else 0)"
  using assms by (induction xs) auto

lemma currentBlock_setup: "map currentBlock (workers (calculatePi_setup T)) = map int [0..<T]"
  by (simp add: workers_setup createdThread_def)

lemma returned_past_blocks:
  assumes i: "invariant n b T s" and T: "1 \<le> T" and r: "allReturned s"
  shows "NUMBER_OF_BLOCKS n b + 1 < nextBlock s"
proof -
  have len: "length (workers s) = T"
    and oks: "\<forall>w\<in>set (workers s). worker_ok n b (nextBlock s) w"
    using i by (simp_all add: invariant_def)
  have t: "0 < length (workers s)" using len T by simp
  then have "workers s ! 0 \<in> set (workers s)" by (rule nth_mem)
  then have "worker_ok n b (nextBlock s) (workers s ! 0)" "pc (workers s ! 0) = Returned"
    using oks r by (simp_all add: allReturned_def list_all_iff)
  then show ?thesis by (simp add: worker_ok_def)
qed

lemma NUMBER_OF_BLOCKS_3_1: "NUMBER_OF_BLOCKS 3 1 = 3"
  by (simp add: NUMBER_OF_BLOCKS_def signed_divide_int_def signed_modulo_int_def)

lemma valid_run_3_1_2: "valid_run 3 1 2"
  by (simp add: valid_run_def valid_config_def NUMBER_OF_BLOCKS_3_1 INT_MAX_def)

lemma setup_2:
  "calculatePi_setup 2 = \<lparr>nextBlock = 2, pi_global = 0,
     workers = [\<lparr>pc = AtLoopTest, currentBlock = 0, threadPi = 0, suspendCount = 1\<rparr>,
                \<lparr>pc = AtLoopTest, currentBlock = 1, threadPi = 0, suspendCount = 1\<rparr>],
     events = [False, False]\<rparr>"
  by (simp add: calculatePi_setup_def globals_def createdThread_def eval_nat_numeral)

lemma twoThreadsRun_log:
  "dispatchLog 3 1 twoThreadsRun (calculatePi_setup 2) = [(1, 2), (0, 3), (0, 4), (1, 5)]"
  by (simp add: twoThreadsRun_def twoThreadsPrefix_def setup_2 NUMBER_OF_BLOCKS_3_1 run_simps)

lemma twoThreadsRun_returned:
  "allReturned (exec 3 1 twoThreadsRun (calculatePi_setup 2))"
  by (simp add: twoThreadsRun_def twoThreadsPrefix_def setup_2 NUMBER_OF_BLOCKS_3_1 run_simps
      allReturned_def)

lemma twoThreadsRun_nextBlock:
  "nextBlock (exec 3 1 twoThreadsRun (calculatePi_setup 2)) = 6"
  by (simp add: twoThreadsRun_def twoThreadsPrefix_def setup_2 NUMBER_OF_BLOCKS_3_1 run_simps)

lemma twoThreadsPrefix_log:
  "dispatchLog 3 1 twoThreadsPrefix (calculatePi_setup 2) = [(1, 2)]"
  by (simp add: twoThreadsPrefix_def setup_2 NUMBER_OF_BLOCKS_3_1 run_simps)

section \<open>The accumulated sum\<close>

lemma blockSum_past_end:
  assumes "valid_config n b" "NUMBER_OF_BLOCKS n b \<le> k"
  shows "blockSum n b k = 0"
  using evaluatedAt_past_end[OF assms] by (simp add: blockSum_def blockSamples_def)






section \<open>The effect of each step of a thread\<close>

lemma length_workers_run [simp]:
  "length (workers (calculateIteration_step n b t s)) = length (workers s)"
  by (cases "pc (workers s ! t)")
     (simp_all add: calculateIteration_step_def Let_def setWorker_def split: option.split prod.split)

lemma length_workers_step_any [simp]: "length (workers (step n b a s)) = length (workers s)"
  by (cases a) (simp_all add: ResetEvent_def)

lemma length_workers_exec [simp]: "length (workers (exec n b sched s)) = length (workers s)"
  by (induction sched arbitrary: s) simp_all

lemma run_at_loop_test_inside:
  assumes "valid_config n b" "t < length (workers s)" "pc (workers s ! t) = AtLoopTest"
    "0 \<le> currentBlock (workers s ! t)" "currentBlock (workers s ! t) \<le> NUMBER_OF_BLOCKS n b"
  shows "calculateIteration_step n b t s = s\<lparr>workers := (workers s)[t := (workers s ! t)
           \<lparr>pc := AtSetEvent,
            threadPi := threadPi (workers s ! t) + blockSum n b (currentBlock (workers s ! t))\<rparr>]\<rparr>"
  using assms
  by (simp add: calculateIteration_step_def Let_def setWorker_def blockBounds_under_guard
      forLoop_addSample blockSum_under_guard)

lemma run_at_loop_test_outside:
  assumes "pc (workers s ! t) = AtLoopTest"
    "NUMBER_OF_BLOCKS n b < currentBlock (workers s ! t)"
  shows "calculateIteration_step n b t s
           = s\<lparr>workers := (workers s)[t := (workers s ! t)\<lparr>pc := AtFold\<rparr>]\<rparr>"
  using assms by (simp add: calculateIteration_step_def Let_def setWorker_def)

lemma run_at_set_event:
  assumes "pc (workers s ! t) = AtSetEvent"
  shows "calculateIteration_step n b t s
           = s\<lparr>events := (events s)[t := True],
                workers := (workers s)[t := (workers s ! t)\<lparr>pc := AtCheckNext\<rparr>]\<rparr>"
  using assms by (simp add: calculateIteration_step_def Let_def setWorker_def)

lemma run_at_check_next:
  assumes "pc (workers s ! t) = AtCheckNext"
  shows "calculateIteration_step n b t s
           = s\<lparr>workers := (workers s)[t := (workers s ! t)
                 \<lparr>pc := (if nextBlock s \<le> NUMBER_OF_BLOCKS n b then AtSuspend else AtClaim)\<rparr>]\<rparr>"
  using assms by (simp add: calculateIteration_step_def Let_def setWorker_def)


lemma run_at_claim:
  assumes "valid_run n b T" "invariant n b T s" "t < length (workers s)"
    "pc (workers s ! t) = AtClaim"
  shows "calculateIteration_step n b t s
           = s\<lparr>nextBlock := nextBlock s + 1,
                workers := (workers s)[t := (workers s ! t)
                 \<lparr>pc := AtLoopTest, currentBlock := nextBlock s\<rparr>]\<rparr>"
  using assms(4) claim_does_not_wrap[OF assms]
  by (simp add: calculateIteration_step_def Let_def setWorker_def)

lemma run_at_fold:
  assumes "pc (workers s ! t) = AtFold"
  shows "calculateIteration_step n b t s
           = s\<lparr>pi_global := pi_global s + threadPi (workers s ! t),
                workers := (workers s)[t := (workers s ! t)\<lparr>pc := Returned\<rparr>]\<rparr>"
  using assms by (simp add: calculateIteration_step_def Let_def setWorker_def)

lemma worker_ok_reachable:
  assumes "invariant n b T s" "t < T"
  shows "worker_ok n b (nextBlock s) (workers s ! t)"
  using assms by (simp add: invariant_def)

lemma setup_threads_suspended:
  "step n b (Run t) (calculatePi_setup T) = calculatePi_setup T"
proof (cases "t < T")
  case True
  then have "suspendCount (workers (calculatePi_setup T) ! t) = 1"
    by (simp add: workers_setup createdThread_def)
  then show ?thesis by (simp add: runnable_def)
next
  case False
  then show ?thesis by (simp add: workers_setup)
qed

lemma upToFirstClaim_state:
  "pc (workers (exec N BLOCK_SIZE upToFirstClaim (calculatePi_setup 13)) ! 0) = AtClaim
   \<and> runnable (workers (exec N BLOCK_SIZE upToFirstClaim (calculatePi_setup 13)) ! 0)
   \<and> nextBlock (exec N BLOCK_SIZE upToFirstClaim (calculatePi_setup 13)) = 13"
  by (simp add: upToFirstClaim_def calculatePi_setup_def globals_def createdThread_def
      eval_nat_numeral N_def BLOCK_SIZE_def NUMBER_OF_BLOCKS_numerals run_simps)

section \<open>The loop of a thread at and past the block count\<close>

lemma step_run:
  assumes "t < length (workers s)" "runnable (workers s ! t)"
  shows "step n b (Run t) s = calculateIteration_step n b t s"
  using assms by simp

lemmas program_13_simps =
  calculatePi_setup_def globals_def createdThread_def eval_nat_numeral N_def BLOCK_SIZE_def
  NUMBER_OF_BLOCKS_numerals run_simps

lemma holdsBlockCount_state:
  "currentBlock (workers (exec N BLOCK_SIZE holdsBlockCount (calculatePi_setup 13)) ! 0) = 13
   \<and> pc (workers (exec N BLOCK_SIZE holdsBlockCount (calculatePi_setup 13)) ! 0) = AtLoopTest
   \<and> runnable (workers (exec N BLOCK_SIZE holdsBlockCount (calculatePi_setup 13)) ! 0)
   \<and> events (exec N BLOCK_SIZE holdsBlockCount (calculatePi_setup 13)) ! 0 = False"
  by (simp add: holdsBlockCount_def program_13_simps)

lemma holdsBlockCount_next:
  "pc (workers (exec N BLOCK_SIZE (holdsBlockCount @ [Run 0]) (calculatePi_setup 13)) ! 0) = AtSetEvent
   \<and> events (exec N BLOCK_SIZE (holdsBlockCount @ [Run 0, Run 0]) (calculatePi_setup 13)) ! 0 = True
   \<and> pc (workers (exec N BLOCK_SIZE (holdsBlockCount @ [Run 0, Run 0]) (calculatePi_setup 13)) ! 0)
       = AtCheckNext"
  by (simp add: holdsBlockCount_def program_13_simps)

lemma holdsPastBlockCount_state:
  "currentBlock (workers (exec N BLOCK_SIZE holdsPastBlockCount (calculatePi_setup 13)) ! 0) = 14
   \<and> pc (workers (exec N BLOCK_SIZE holdsPastBlockCount (calculatePi_setup 13)) ! 0) = AtLoopTest
   \<and> runnable (workers (exec N BLOCK_SIZE holdsPastBlockCount (calculatePi_setup 13)) ! 0)
   \<and> events (exec N BLOCK_SIZE holdsPastBlockCount (calculatePi_setup 13)) ! 0 = False"
  by (simp add: holdsPastBlockCount_def holdsBlockCount_def program_13_simps)

section \<open>Folds and termination of a thread\<close>










lemma twoThreadsRun_folds:
  "foldLog 3 1 twoThreadsRun (calculatePi_setup 2) = [0, 1]"
  by (simp add: twoThreadsRun_def twoThreadsPrefix_def setup_2 NUMBER_OF_BLOCKS_3_1 run_simps)

lemma twoThreadsRun_pc:
  "pc (workers (exec 3 1 twoThreadsRun (calculatePi_setup 2)) ! 1) = Returned"
  by (simp add: twoThreadsRun_def twoThreadsPrefix_def setup_2 NUMBER_OF_BLOCKS_3_1 run_simps)








section \<open>The rounded sums stay near the exact sums\<close>

















section \<open>The double-precision run tracks the exact run\<close>




















section \<open>The accumulator in double precision\<close>












lemma tolerance_of_program:
  assumes "T \<le> 16"
  shows "3 * (real (nat N + T + 1) * (1 / 2 ^ 53) + 1 / 2 ^ 50) \<le> 1 / 10 ^ 6"
proof -
  define x where "x = real (nat N + T + 1)"
  have "real T \<le> 16" using assms by simp
  then have x: "x \<le> 100000017" by (simp add: x_def N_def)
  have "x * (1 / 2 ^ 53) \<le> 100000017 * (1 / 2 ^ 53)"
    using x by (intro mult_right_mono) simp_all
  then have "x * (1 / 2 ^ 53) \<le> 1 / 10 ^ 7" by simp
  moreover have "(1 / 2 ^ 50 :: real) \<le> 1 / 10 ^ 7" by simp
  ultimately have "3 * (x * (1 / 2 ^ 53) + 1 / 2 ^ 50) \<le> 1 / 10 ^ 6" by simp
  then show ?thesis unfolding x_def .
qed

text \<open>
  Claim C2. For every configuration with \<open>n \<ge> 1\<close>, \<open>b \<ge> 1\<close> whose bounds fit the \<^verbatim>\<open>int\<close> of the
  program, \<open>NUMBER_OF_BLOCKS n b\<close> is the ceiling of \<open>n / b\<close>, and the ranges of the blocks
  \<open>0, \<dots>, NUMBER_OF_BLOCKS n b - 1\<close>, which are \<open>[k * b, min ((k + 1) * b) n)\<close>, are not
  empty, are pairwise disjoint and have the union \<open>[0, n)\<close>. When \<open>b\<close> divides \<open>n\<close> every block
  has length \<open>b\<close>; otherwise the last block ends at \<open>n\<close> and is shorter than \<open>b\<close>.
\<close>

theorem C2_blocks_partition:
  assumes "valid_config n b"
  shows "NUMBER_OF_BLOCKS n b = \<lceil>real_of_int n / real_of_int b\<rceil>
    \<and> (\<forall>k. 0 \<le> k \<and> k < NUMBER_OF_BLOCKS n b \<longrightarrow>
          blockBounds n b k = Some (k * b, min ((k + 1) * b) n)
          \<and> blockSamples n b k = {k * b..<min ((k + 1) * b) n}
          \<and> k * b < min ((k + 1) * b) n)
    \<and> (\<Union>k\<in>{0..<NUMBER_OF_BLOCKS n b}. blockSamples n b k) = {0..<n}
    \<and> (\<forall>k k'. 0 \<le> k \<and> k < NUMBER_OF_BLOCKS n b \<and> 0 \<le> k' \<and> k' < NUMBER_OF_BLOCKS n b \<and> k \<noteq> k'
          \<longrightarrow> blockSamples n b k \<inter> blockSamples n b k' = {})
    \<and> (b dvd n \<longrightarrow> NUMBER_OF_BLOCKS n b = n div b
          \<and> (\<forall>k. 0 \<le> k \<and> k < NUMBER_OF_BLOCKS n b \<longrightarrow> min ((k + 1) * b) n - k * b = b))
    \<and> (\<not> b dvd n \<longrightarrow>
          blockBounds n b (NUMBER_OF_BLOCKS n b - 1) = Some ((NUMBER_OF_BLOCKS n b - 1) * b, n)
          \<and> 0 < n - (NUMBER_OF_BLOCKS n b - 1) * b \<and> n - (NUMBER_OF_BLOCKS n b - 1) * b < b)"
proof -
  let ?M = "NUMBER_OF_BLOCKS n b"
  have b: "0 < b" and n: "1 \<le> n" using assms by (simp_all add: valid_config_def)
  have c1: "?M = \<lceil>real_of_int n / real_of_int b\<rceil>"
    using n b by (rule NUMBER_OF_BLOCKS_ceiling)
  have c2: "\<forall>k. 0 \<le> k \<and> k < ?M \<longrightarrow>
          blockBounds n b k = Some (k * b, min ((k + 1) * b) n)
          \<and> blockSamples n b k = {k * b..<min ((k + 1) * b) n}
          \<and> k * b < min ((k + 1) * b) n"
    using assms blockBounds_under_guard[of n b] blockSamples_under_guard[of n b] block_nonempty[of n b]
    by (metis less_imp_le)
  have c3: "(\<Union>k\<in>{0..<?M}. blockSamples n b k) = {0..<n}"
    using assms by (rule blocks_union)
  have c4: "\<forall>k k'. 0 \<le> k \<and> k < ?M \<and> 0 \<le> k' \<and> k' < ?M \<and> k \<noteq> k'
          \<longrightarrow> blockSamples n b k \<inter> blockSamples n b k' = {}"
    using assms by (simp add: blocks_disjoint)
  have c5: "b dvd n \<longrightarrow> ?M = n div b
          \<and> (\<forall>k. 0 \<le> k \<and> k < ?M \<longrightarrow> min ((k + 1) * b) n - k * b = b)"
  proof (intro impI conjI allI)
    assume d: "b dvd n"
    then show M: "?M = n div b" using n b by (simp add: NUMBER_OF_BLOCKS_div)
    fix k assume k: "0 \<le> k \<and> k < ?M"
    have nb: "n = ?M * b" using d M by simp
    have "k + 1 \<le> ?M" using k by simp
    then have "(k + 1) * b \<le> ?M * b" using b by (intro mult_right_mono) simp_all
    then have "min ((k + 1) * b) n = (k + 1) * b" using nb by simp
    then show "min ((k + 1) * b) n - k * b = b" by (simp add: algebra_simps)
  qed
  have c6: "\<not> b dvd n \<longrightarrow>
          blockBounds n b (?M - 1) = Some ((?M - 1) * b, n)
          \<and> 0 < n - (?M - 1) * b \<and> n - (?M - 1) * b < b"
  proof (intro impI)
    assume d: "\<not> b dvd n"
    then have r: "n mod b \<noteq> 0" by (simp add: dvd_eq_mod_eq_0)
    then have M: "?M = n div b + 1" using n b by (simp add: NUMBER_OF_BLOCKS_div)
    have q0: "0 \<le> n div b" using n b by (simp add: pos_imp_zdiv_nonneg_iff)
    have e: "n = b * (n div b) + n mod b" by simp
    have "0 \<le> n mod b" using b by simp
    with r have rb0: "0 < n mod b" by linarith
    have "n mod b < b" using b by simp
    with rb0 have rb: "0 < n mod b" "n mod b < b" by blast+
    have len: "n - (?M - 1) * b = n mod b" using M by (simp add: algebra_simps minus_mult_div_eq_mod)
    have "n \<le> ?M * b" using n b blocks_cover_upper[of n b] by simp
    then have "min ((?M - 1 + 1) * b) n = n" by simp
    moreover have "blockBounds n b (?M - 1) = Some ((?M - 1) * b, min ((?M - 1 + 1) * b) n)"
      using assms M q0 by (intro blockBounds_under_guard) simp_all
    ultimately show "blockBounds n b (?M - 1) = Some ((?M - 1) * b, n)
          \<and> 0 < n - (?M - 1) * b \<and> n - (?M - 1) * b < b"
      using len rb by simp
  qed
  show ?thesis using c1 c2 c3 c4 c5 c6 by blast
qed

lemma valid_config_10_3: "valid_config 10 3"
  by (simp add: valid_config_def NUMBER_OF_BLOCKS_def signed_divide_int_def signed_modulo_int_def INT_MAX_def)

theorem C2_blocks_partition_witness:
  "valid_config 10 3 \<and> NUMBER_OF_BLOCKS 10 3 = 4
   \<and> blockBounds 10 3 0 = Some (0, 3) \<and> blockBounds 10 3 1 = Some (3, 6)
   \<and> blockBounds 10 3 2 = Some (6, 9) \<and> blockBounds 10 3 3 = Some (9, 10)
   \<and> (\<Union>k\<in>{0..<4}. blockSamples 10 3 k) = {0..<10}
   \<and> blockSamples 10 3 2 \<inter> blockSamples 10 3 3 = {}
   \<and> \<not> (3::int) dvd 10 \<and> (10::int) - (4 - 1) * 3 < 3"
proof -
  have M: "NUMBER_OF_BLOCKS 10 3 = 4"
    by (simp add: NUMBER_OF_BLOCKS_def signed_divide_int_def signed_modulo_int_def)
  have v: "valid_config 10 3" by (rule valid_config_10_3)
  note t = C2_blocks_partition[OF v, unfolded M]
  have u: "(\<Union>k\<in>{0..<4}. blockSamples 10 3 k) = {0..<10}" using t by blast
  have "(0::int) \<le> 2 \<and> (2::int) < 4 \<and> (0::int) \<le> 3 \<and> (3::int) < 4 \<and> (2::int) \<noteq> 3" by simp
  then have d: "blockSamples 10 3 2 \<inter> blockSamples 10 3 3 = {}"
    using t by blast
  have bb: "blockBounds 10 3 0 = Some (0, 3)" "blockBounds 10 3 1 = Some (3, 6)"
   "blockBounds 10 3 2 = Some (6, 9)" "blockBounds 10 3 3 = Some (9, 10)"
    using t by simp_all
  show ?thesis using v M u d bb by simp
qed

text \<open>
  Claim C8. The bounds of a block are a function of \<open>n\<close>, \<open>b\<close> and the block index alone. For
  every index \<open>k\<close> in \<open>[0, NUMBER_OF_BLOCKS n b)\<close> the bounds are
  \<open>(max 0 (k * b), min ((k + 1) * b) n)\<close> and the loop visits exactly the indices between them.
  For every \<open>k \<ge> NUMBER_OF_BLOCKS n b\<close> no index is visited: the range computed for it, when
  one is computed, is empty. No bound overflows for an index the guard of line 60 admits.
\<close>

theorem C8_block_range:
  assumes "valid_config n b"
  shows "(\<forall>k. 0 \<le> k \<and> k < NUMBER_OF_BLOCKS n b \<longrightarrow>
            blockBounds n b k = Some (max 0 (k * b), min ((k + 1) * b) n)
            \<and> evaluatedAt n b k = Some [max 0 (k * b)..min ((k + 1) * b) n - 1])
    \<and> (\<forall>k. NUMBER_OF_BLOCKS n b \<le> k \<longrightarrow> evaluatedAt n b k = Some [] \<and> blockSamples n b k = {})
    \<and> (\<forall>k s e. NUMBER_OF_BLOCKS n b \<le> k \<and> blockBounds n b k = Some (s, e) \<longrightarrow> {s..<e} = {})
    \<and> (\<forall>k. 0 \<le> k \<and> k \<le> NUMBER_OF_BLOCKS n b \<longrightarrow> blockBounds n b k \<noteq> None)"
proof (intro conjI allI impI)
  have b: "0 < b" using assms by (simp add: valid_config_def)
  {
    fix k assume k: "0 \<le> k \<and> k < NUMBER_OF_BLOCKS n b"
    have m: "max 0 (k * b) = k * b" using k b by simp
    show "blockBounds n b k = Some (max 0 (k * b), min ((k + 1) * b) n)"
      unfolding m using assms k by (intro blockBounds_under_guard) simp_all
    show "evaluatedAt n b k = Some [max 0 (k * b)..min ((k + 1) * b) n - 1]"
      unfolding m using assms k by (intro evaluatedAt_under_guard) simp_all
  }
  {
    fix k assume k: "NUMBER_OF_BLOCKS n b \<le> k"
    show e: "evaluatedAt n b k = Some []" using assms k by (rule evaluatedAt_past_end)
    show "blockSamples n b k = {}" by (simp add: blockSamples_def e)
  }
  {
    fix k s e assume "NUMBER_OF_BLOCKS n b \<le> k \<and> blockBounds n b k = Some (s, e)"
    then have "e \<le> s" using assms blockBounds_empty_past_end by blast
    then show "{s..<e} = {}" by simp
  }
  {
    fix k assume "0 \<le> k \<and> k \<le> NUMBER_OF_BLOCKS n b"
    then show "blockBounds n b k \<noteq> None" using assms by (simp add: blockBounds_under_guard)
  }
qed

theorem C8_block_range_witness:
  "valid_config N BLOCK_SIZE \<and> NUMBER_OF_BLOCKS N BLOCK_SIZE = 13
   \<and> blockBounds N BLOCK_SIZE 12 = Some (99684480, 100000000)
   \<and> blockBounds N BLOCK_SIZE 13 \<noteq> None
   \<and> evaluatedAt N BLOCK_SIZE 13 = Some []
   \<and> evaluatedAt N BLOCK_SIZE 14 = Some []"
proof -
  note t = C8_block_range[OF valid_config_program, unfolded NUMBER_OF_BLOCKS_program]
  have a: "blockBounds N BLOCK_SIZE 12 = Some (max 0 (12 * BLOCK_SIZE), min ((12 + 1) * BLOCK_SIZE) N)"
    using t by simp
  have c: "blockBounds N BLOCK_SIZE 13 \<noteq> None" using t by simp
  have d: "evaluatedAt N BLOCK_SIZE 13 = Some []" "evaluatedAt N BLOCK_SIZE 14 = Some []"
    using t by simp_all
  have v: "max 0 (12 * BLOCK_SIZE) = 99684480" "min ((12 + 1) * BLOCK_SIZE) N = 100000000"
    by (simp_all add: N_def BLOCK_SIZE_def)
  show ?thesis using a c d valid_config_program NUMBER_OF_BLOCKS_program unfolding v by simp
qed

text \<open>
  Claim C9. For every block index \<open>k \<ge> 0\<close> a thread may hold, the list of sample indices at
  which the integrand is evaluated is defined (no overflow), every index \<open>i\<close> in it satisfies
  \<open>0 \<le> i < n\<close>, and the step of the thread at the loop test adds to \<open>threadPi\<close> the integrand
  at exactly these indices.
\<close>

theorem C9_samples_in_range:
  assumes "valid_config n b" and "0 \<le> k"
  shows "\<exists>xs. evaluatedAt n b k = Some xs \<and> (\<forall>i\<in>set xs. 0 \<le> i \<and> i < n)
           \<and> (\<forall>(s::system) t. t < length (workers s) \<and> pc (workers s ! t) = AtLoopTest
                  \<and> currentBlock (workers s ! t) = k \<longrightarrow>
                threadPi (workers (calculateIteration_step n b t s) ! t)
                  = foldl (\<lambda>acc i. addSample n i acc) (threadPi (workers s ! t)) xs)"
proof -
  have "\<exists>xs. evaluatedAt n b k = Some xs \<and> (\<forall>i\<in>set xs. 0 \<le> i \<and> i < n)"
  proof (cases "k \<le> NUMBER_OF_BLOCKS n b")
    case True
    have b: "0 < b" using assms by (simp add: valid_config_def)
    have e: "evaluatedAt n b k = Some [k * b..min ((k + 1) * b) n - 1]"
      using assms True by (rule evaluatedAt_under_guard)
    have "0 \<le> k * b" using assms b by simp
    then have "\<forall>i\<in>set [k * b..min ((k + 1) * b) n - 1]. 0 \<le> i \<and> i < n" by simp
    with e show ?thesis by (intro exI conjI)
  next
    case False
    then have "evaluatedAt n b k = Some []" by (simp add: evaluatedAt_def)
    then show ?thesis by simp
  qed
  then obtain xs where e: "evaluatedAt n b k = Some xs" and r: "\<forall>i\<in>set xs. 0 \<le> i \<and> i < n"
    by (elim exE conjE)
  have "\<forall>(s::system) t. t < length (workers s) \<and> pc (workers s ! t) = AtLoopTest
                  \<and> currentBlock (workers s ! t) = k \<longrightarrow>
                threadPi (workers (calculateIteration_step n b t s) ! t)
                  = foldl (\<lambda>acc i. addSample n i acc) (threadPi (workers s ! t)) xs"
  proof (intro allI impI, elim conjE)
    fix s :: system and t
    assume "t < length (workers s)" "pc (workers s ! t) = AtLoopTest"
      "currentBlock (workers s ! t) = k"
    then show "threadPi (workers (calculateIteration_step n b t s) ! t)
                  = foldl (\<lambda>acc i. addSample n i acc) (threadPi (workers s ! t)) xs"
      using e by (intro loop_test_accumulates) simp_all
  qed
  with e r show ?thesis by (intro exI conjI)
qed

theorem C9_samples_in_range_witness:
  "valid_config N BLOCK_SIZE \<and> (0::int) \<le> 12
   \<and> (\<exists>xs. evaluatedAt N BLOCK_SIZE 12 = Some xs \<and> xs \<noteq> [] \<and> (\<forall>i\<in>set xs. 0 \<le> i \<and> i < N))"
proof -
  have k: "(0::int) \<le> 12" by simp
  obtain xs where x: "evaluatedAt N BLOCK_SIZE 12 = Some xs" and r: "\<forall>i\<in>set xs. 0 \<le> i \<and> i < N"
    using C9_samples_in_range[OF valid_config_program k] by (elim exE conjE)
  have g: "(12::int) \<le> NUMBER_OF_BLOCKS N BLOCK_SIZE" by (simp add: NUMBER_OF_BLOCKS_program)
  have e: "evaluatedAt N BLOCK_SIZE 12 = Some [12 * BLOCK_SIZE..min ((12 + 1) * BLOCK_SIZE) N - 1]"
    using valid_config_program k g by (rule evaluatedAt_under_guard)
  have le: "12 * BLOCK_SIZE \<le> min ((12 + 1) * BLOCK_SIZE) N - 1"
    by (simp add: N_def BLOCK_SIZE_def)
  have xe: "xs = [12 * BLOCK_SIZE..min ((12 + 1) * BLOCK_SIZE) N - 1]"
    using x e by (simp only: option.inject)
  have ne: "[12 * BLOCK_SIZE..min ((12 + 1) * BLOCK_SIZE) N - 1] \<noteq> []"
    using le by (simp only: upto_Nil not_less)
  have "xs \<noteq> []" unfolding xe by (rule ne)
  with x r have "\<exists>xs. evaluatedAt N BLOCK_SIZE 12 = Some xs \<and> xs \<noteq> [] \<and> (\<forall>i\<in>set xs. 0 \<le> i \<and> i < N)"
    by (intro exI conjI)
  with valid_config_program k show ?thesis by (intro conjI)
qed

text \<open>
  Claim C4 says that the start of the run resumes the threads \<open>0\<close> to \<open>numberOfThreads - 1\<close> and
  reads no handle past the array. The loop of lines 179 to 181 runs \<open>i\<close> up to
  \<open>numberOfThreads\<close> inclusive: for every thread count it reads \<^verbatim>\<open>threadsArray[numberOfThreads]\<close>,
  one past the allocated handles. The loop of lines 224 to 231, over the same array, stops
  at \<open>numberOfThreads - 1\<close> and stays within it.
\<close>

theorem C4_start_reads_past_the_handles:
  "calculatePi_start numberOfThreads (calculatePi_setup numberOfThreads)
     = Inl (OutOfBounds numberOfThreads)
   \<and> (\<exists>s'. calculatePi_collect numberOfThreads (calculatePi_setup numberOfThreads) = Inr s')"
proof
  have "[0..<numberOfThreads + 1] = [0..<numberOfThreads] @ [numberOfThreads]" by simp
  then show "calculatePi_start numberOfThreads (calculatePi_setup numberOfThreads)
     = Inl (OutOfBounds numberOfThreads)"
    unfolding calculatePi_start_def
    by (simp only:) (rule resumeEach_past_end, simp_all add: workers_setup)
  show "\<exists>s'. calculatePi_collect numberOfThreads (calculatePi_setup numberOfThreads) = Inr s'"
    using resumeEach_in_bounds[of "[0..<numberOfThreads]" "calculatePi_setup numberOfThreads"]
    by (auto simp: calculatePi_collect_def workers_setup)
qed

text \<open>
  Claim C7 says that \<open>nextBlock\<close> is monotonically increasing and stays within
  \<open>[numberOfThreads, NUMBER_OF_BLOCKS]\<close>. The upper bound fails: every thread goes on calling
  \<^verbatim>\<open>fetch_add\<close> until the value it receives exceeds \<open>NUMBER_OF_BLOCKS\<close>. With 13 threads (the
  block count of the program) the first claim of thread 0 already moves the counter to 14.
\<close>

theorem C7_cursor_exceeds_block_count:
  "(13::int) \<le> NUMBER_OF_BLOCKS N BLOCK_SIZE
   \<and> NUMBER_OF_BLOCKS N BLOCK_SIZE
       < nextBlock (exec N BLOCK_SIZE [Resume 0, Run 0, Run 0, Run 0, Run 0, Resume 0, Run 0]
                     (calculatePi_setup 13))"
proof -
  have "nextBlock (exec N BLOCK_SIZE [Resume 0, Run 0, Run 0, Run 0, Run 0, Resume 0, Run 0]
                     (calculatePi_setup 13)) = 14"
    by (simp add: calculatePi_setup_def globals_def createdThread_def eval_nat_numeral
        N_def BLOCK_SIZE_def NUMBER_OF_BLOCKS_numerals run_simps)
  then show ?thesis by (simp add: NUMBER_OF_BLOCKS_program)
qed

text \<open>
  Claim C7, amended. In every reachable state \<open>nextBlock\<close> starts at \<open>numberOfThreads\<close>, never
  decreases as the schedule is extended, and stays within
  \<open>[numberOfThreads, numberOfThreads + NUMBER_OF_BLOCKS + 1]\<close>.
\<close>

theorem C7_cursor_monotone_and_bounded:
  assumes "valid_run n b T"
  shows "nextBlock (calculatePi_setup T) = int T
    \<and> nextBlock (exec n b sched (calculatePi_setup T))
        \<le> nextBlock (exec n b (sched @ rest) (calculatePi_setup T))
    \<and> int T \<le> nextBlock (exec n b sched (calculatePi_setup T))
    \<and> nextBlock (exec n b sched (calculatePi_setup T)) \<le> int T + NUMBER_OF_BLOCKS n b + 1"
proof -
  let ?s = "exec n b sched (calculatePi_setup T)"
  have i: "invariant n b T ?s" using assms by (rule invariant_reachable)
  have "nextBlock (exec n b rest ?s) = nextBlock ?s + int (length (dispatchLog n b rest ?s))"
    using assms i by (rule nextBlock_exec)
  then have mono: "nextBlock ?s \<le> nextBlock (exec n b (sched @ rest) (calculatePi_setup T))"
    by (simp add: exec_append)
  have lo: "int T \<le> nextBlock ?s" using i by (simp add: invariant_def)
  have hi: "nextBlock ?s \<le> int T + NUMBER_OF_BLOCKS n b + 1" using i by (rule nextBlock_upper)
  show ?thesis using mono lo hi by (simp add: nextBlock_setup)
qed

theorem C7_cursor_monotone_and_bounded_witness:
  "valid_run N BLOCK_SIZE 13
   \<and> nextBlock (calculatePi_setup 13) = int 13
   \<and> nextBlock (exec N BLOCK_SIZE [Resume 0, Run 0, Run 0, Run 0, Run 0] (calculatePi_setup 13))
        \<le> nextBlock (exec N BLOCK_SIZE ([Resume 0, Run 0, Run 0, Run 0, Run 0] @ [Resume 0, Run 0])
              (calculatePi_setup 13))
   \<and> int 13 \<le> nextBlock (exec N BLOCK_SIZE [Resume 0, Run 0, Run 0, Run 0, Run 0] (calculatePi_setup 13))
   \<and> nextBlock (exec N BLOCK_SIZE [Resume 0, Run 0, Run 0, Run 0, Run 0] (calculatePi_setup 13))
        \<le> int 13 + NUMBER_OF_BLOCKS N BLOCK_SIZE + 1"
  using valid_run_program_13
    C7_cursor_monotone_and_bounded[OF valid_run_program_13,
      of "[Resume 0, Run 0, Run 0, Run 0, Run 0]" "[Resume 0, Run 0]"]
  by blast

text \<open>
  Claim C1. Whatever the interleaving of the threads and of the coordinator's calls, the
  values \<^verbatim>\<open>nextBlock.fetch_add\<close> returns are \<open>numberOfThreads, numberOfThreads + 1, \<dots>\<close> in this
  order, each to one thread; with the initial blocks \<open>0, \<dots>, numberOfThreads - 1\<close> the indices
  dispensed are exactly \<open>0, \<dots>, nextBlock - 1\<close>, without duplicate and without gap. When every
  thread has returned, every block index in \<open>[0, NUMBER_OF_BLOCKS)\<close> has been dispensed exactly
  once; and the first \<open>NUMBER_OF_BLOCKS - numberOfThreads\<close> values returned are exactly
  \<open>numberOfThreads, \<dots>, NUMBER_OF_BLOCKS - 1\<close>.
\<close>

theorem C1_dispatch_exactly_once:
  assumes v: "valid_run n b T"
  shows "let s0 = calculatePi_setup T; s = exec n b sched s0; log = dispatchLog n b sched s0;
             dispensed = map int [0..<T] @ map snd log in
     map currentBlock (workers s0) = map int [0..<T]
   \<and> map snd log = [int T..nextBlock s - 1]
   \<and> dispensed = [0..nextBlock s - 1]
   \<and> distinct dispensed
   \<and> (\<forall>p\<in>set log. fst p < T)
   \<and> (allReturned s \<longrightarrow> NUMBER_OF_BLOCKS n b < nextBlock s
         \<and> (\<forall>k. 0 \<le> k \<and> k < NUMBER_OF_BLOCKS n b \<longrightarrow> count_list dispensed k = 1))
   \<and> (int T \<le> NUMBER_OF_BLOCKS n b \<and> length log = nat (NUMBER_OF_BLOCKS n b - int T)
         \<longrightarrow> set (map snd log) = {int T..<NUMBER_OF_BLOCKS n b} \<and> distinct (map snd log))"
proof -
  let ?M = "NUMBER_OF_BLOCKS n b"
  let ?init = "calculatePi_setup T"
  let ?s = "exec n b sched ?init"
  let ?log = "dispatchLog n b sched ?init"
  let ?d = "map int [0..<T] @ map snd ?log"
  have i0: "invariant n b T ?init" using v by (simp add: invariant_setup)
  have i: "invariant n b T ?s" using v by (simp add: invariant_reachable)
  have T1: "1 \<le> T" using v by (simp add: valid_run_def)
  have lo: "int T \<le> nextBlock ?s" using i by (simp add: invariant_def)
  have c1: "map currentBlock (workers ?init) = map int [0..<T]" by (rule currentBlock_setup)
  have lv: "map snd ?log = [nextBlock ?init..nextBlock ?s - 1]" "\<forall>p\<in>set ?log. fst p < T"
    using dispatchLog_values[OF v i0, of sched] by simp_all
  have c2: "map snd ?log = [int T..nextBlock ?s - 1]" using lv(1) by (simp add: nextBlock_setup)
  have c3: "?d = [0..nextBlock ?s - 1]"
    unfolding c2 upto_int_upt using lo by (intro upto_split_at) simp_all
  have c4: "distinct ?d" unfolding c3 by simp
  have c6: "allReturned ?s \<longrightarrow> ?M < nextBlock ?s
         \<and> (\<forall>k. 0 \<le> k \<and> k < ?M \<longrightarrow> count_list ?d k = 1)"
  proof (intro impI conjI allI)
    assume r: "allReturned ?s"
    have p: "?M + 1 < nextBlock ?s" using i T1 r by (rule returned_past_blocks)
    then show "?M < nextBlock ?s" by simp
    fix k assume "0 \<le> k \<and> k < ?M"
    then have "k \<in> set ?d" unfolding c3 using p by simp
    then show "count_list ?d k = 1" using c4 by (simp only: count_list_distinct if_True)
  qed
  have c7: "int T \<le> ?M \<and> length ?log = nat (?M - int T)
         \<longrightarrow> set (map snd ?log) = {int T..<?M} \<and> distinct (map snd ?log)"
  proof (intro impI)
    assume h: "int T \<le> ?M \<and> length ?log = nat (?M - int T)"
    have "nextBlock ?s = nextBlock ?init + int (length ?log)" using v i0 by (rule nextBlock_exec)
    then have "nextBlock ?s = ?M" using h by (simp add: nextBlock_setup)
    then show "set (map snd ?log) = {int T..<?M} \<and> distinct (map snd ?log)"
      unfolding c2 by auto
  qed
  show ?thesis unfolding Let_def using c1 c2 c3 c4 lv(2) c6 c7 by blast
qed

theorem C1_dispatch_exactly_once_witness:
  "valid_run 3 1 2
   \<and> allReturned (exec 3 1 twoThreadsRun (calculatePi_setup 2))
   \<and> dispatchLog 3 1 twoThreadsRun (calculatePi_setup 2) = [(1, 2), (0, 3), (0, 4), (1, 5)]
   \<and> nextBlock (exec 3 1 twoThreadsRun (calculatePi_setup 2)) = 6
   \<and> count_list (map int [0..<2] @ map snd (dispatchLog 3 1 twoThreadsRun (calculatePi_setup 2))) 0 = 1
   \<and> count_list (map int [0..<2] @ map snd (dispatchLog 3 1 twoThreadsRun (calculatePi_setup 2))) 1 = 1
   \<and> count_list (map int [0..<2] @ map snd (dispatchLog 3 1 twoThreadsRun (calculatePi_setup 2))) 2 = 1
   \<and> length (dispatchLog 3 1 twoThreadsPrefix (calculatePi_setup 2)) = nat (NUMBER_OF_BLOCKS 3 1 - int 2)
   \<and> set (map snd (dispatchLog 3 1 twoThreadsPrefix (calculatePi_setup 2)))
        = {int 2..<NUMBER_OF_BLOCKS 3 1}"
proof -
  note full = C1_dispatch_exactly_once[OF valid_run_3_1_2, of twoThreadsRun, unfolded Let_def]
  note pre = C1_dispatch_exactly_once[OF valid_run_3_1_2, of twoThreadsPrefix, unfolded Let_def]
  have r: "allReturned (exec 3 1 twoThreadsRun (calculatePi_setup 2))"
    by (rule twoThreadsRun_returned)
  have cnt: "\<forall>k. 0 \<le> k \<and> k < NUMBER_OF_BLOCKS 3 1 \<longrightarrow>
      count_list (map int [0..<2] @ map snd (dispatchLog 3 1 twoThreadsRun (calculatePi_setup 2))) k = 1"
    using full r by blast
  have c0: "count_list (map int [0..<2] @ map snd (dispatchLog 3 1 twoThreadsRun (calculatePi_setup 2))) 0 = 1"
    and c1: "count_list (map int [0..<2] @ map snd (dispatchLog 3 1 twoThreadsRun (calculatePi_setup 2))) 1 = 1"
    and c2: "count_list (map int [0..<2] @ map snd (dispatchLog 3 1 twoThreadsRun (calculatePi_setup 2))) 2 = 1"
    using cnt by (simp_all only: NUMBER_OF_BLOCKS_3_1) simp_all
  have nb: "nextBlock (exec 3 1 twoThreadsRun (calculatePi_setup 2)) = 6"
    by (rule twoThreadsRun_nextBlock)
  have len: "length (dispatchLog 3 1 twoThreadsPrefix (calculatePi_setup 2))
      = nat (NUMBER_OF_BLOCKS 3 1 - int 2)"
    by (simp add: twoThreadsPrefix_log NUMBER_OF_BLOCKS_3_1)
  have le: "int 2 \<le> NUMBER_OF_BLOCKS 3 1" by (simp add: NUMBER_OF_BLOCKS_3_1)
  have st: "set (map snd (dispatchLog 3 1 twoThreadsPrefix (calculatePi_setup 2)))
        = {int 2..<NUMBER_OF_BLOCKS 3 1}"
    using pre len le by blast
  show ?thesis using valid_run_3_1_2 r twoThreadsRun_log nb c0 c1 c2 len st by blast
qed



text \<open>
  Claim C6. \<open>nextBlock\<close> is 0 when the threads are created and is set to \<open>numberOfThreads\<close>
  by the setup, in a state in which no thread can take a step (all are suspended). After
  that every action changes it by the number of values it dispenses: a
  \<^verbatim>\<open>nextBlock.fetch_add\<close> of a thread returns the value before the increment (it becomes the
  thread's \<open>currentBlock\<close>) and increments the counter by exactly one, without wrap-around;
  no other action changes it.
\<close>

theorem C6_claim_is_fetch_and_add:
  assumes v: "valid_run n b T"
  shows "nextBlock (createAll [0..<T] globals) = 0
    \<and> nextBlock (calculatePi_setup T) = int T
    \<and> (\<forall>t. step n b (Run t) (calculatePi_setup T) = calculatePi_setup T)
    \<and> (\<forall>a. nextBlock (step n b a (exec n b sched (calculatePi_setup T)))
            = nextBlock (exec n b sched (calculatePi_setup T))
              + int (length (claimed a (exec n b sched (calculatePi_setup T)))))
    \<and> (\<forall>t. t < T \<and> runnable (workers (exec n b sched (calculatePi_setup T)) ! t)
            \<and> pc (workers (exec n b sched (calculatePi_setup T)) ! t) = AtClaim \<longrightarrow>
          claimed (Run t) (exec n b sched (calculatePi_setup T))
            = [(t, nextBlock (exec n b sched (calculatePi_setup T)))]
          \<and> currentBlock (workers (step n b (Run t) (exec n b sched (calculatePi_setup T))) ! t)
              = nextBlock (exec n b sched (calculatePi_setup T))
          \<and> nextBlock (step n b (Run t) (exec n b sched (calculatePi_setup T)))
              = nextBlock (exec n b sched (calculatePi_setup T)) + 1)"
proof -
  let ?s = "exec n b sched (calculatePi_setup T)"
  have i: "invariant n b T ?s" using v by (rule invariant_reachable)
  have len: "length (workers ?s) = T" using i by (simp add: invariant_def)
  have c0: "nextBlock (createAll [0..<T] globals) = 0" by (simp add: globals_def)
  have c1: "nextBlock (calculatePi_setup T) = int T" by (rule nextBlock_setup)
  have c2: "\<forall>t. step n b (Run t) (calculatePi_setup T) = calculatePi_setup T"
    by (simp only: setup_threads_suspended simp_thms)
  have c3: "\<forall>a. nextBlock (step n b a ?s) = nextBlock ?s + int (length (claimed a ?s))"
    using nextBlock_step[OF v i] by blast
  have c4: "\<forall>t. t < T \<and> runnable (workers ?s ! t) \<and> pc (workers ?s ! t) = AtClaim \<longrightarrow>
          claimed (Run t) ?s = [(t, nextBlock ?s)]
          \<and> currentBlock (workers (step n b (Run t) ?s) ! t) = nextBlock ?s
          \<and> nextBlock (step n b (Run t) ?s) = nextBlock ?s + 1"
  proof (intro allI impI, elim conjE)
    fix t assume t: "t < T" and r: "runnable (workers ?s ! t)" and pc: "pc (workers ?s ! t) = AtClaim"
    have tl: "t < length (workers ?s)" using t len by simp
    have st: "step n b (Run t) ?s = ?s\<lparr>nextBlock := nextBlock ?s + 1,
                workers := (workers ?s)[t := (workers ?s ! t)
                 \<lparr>pc := AtLoopTest, currentBlock := nextBlock ?s\<rparr>]\<rparr>"
      using tl r run_at_claim[OF v i tl pc] by simp
    have "claimed (Run t) ?s = [(t, nextBlock ?s)]" using tl r pc by simp
    moreover have "currentBlock (workers (step n b (Run t) ?s) ! t) = nextBlock ?s"
      unfolding st using tl by simp
    moreover have "nextBlock (step n b (Run t) ?s) = nextBlock ?s + 1"
      unfolding st by simp
    ultimately show "claimed (Run t) ?s = [(t, nextBlock ?s)]
          \<and> currentBlock (workers (step n b (Run t) ?s) ! t) = nextBlock ?s
          \<and> nextBlock (step n b (Run t) ?s) = nextBlock ?s + 1" by blast
  qed
  show ?thesis using c0 c1 c2 c3 c4 by blast
qed

theorem C6_claim_is_fetch_and_add_witness:
  "valid_run N BLOCK_SIZE 13
   \<and> nextBlock (calculatePi_setup 13) = int 13
   \<and> step N BLOCK_SIZE (Run 0) (calculatePi_setup 13) = calculatePi_setup 13
   \<and> (0::nat) < 13
   \<and> runnable (workers (exec N BLOCK_SIZE upToFirstClaim (calculatePi_setup 13)) ! 0)
   \<and> pc (workers (exec N BLOCK_SIZE upToFirstClaim (calculatePi_setup 13)) ! 0) = AtClaim
   \<and> nextBlock (exec N BLOCK_SIZE upToFirstClaim (calculatePi_setup 13)) = 13
   \<and> currentBlock (workers (step N BLOCK_SIZE (Run 0)
         (exec N BLOCK_SIZE upToFirstClaim (calculatePi_setup 13))) ! 0) = 13
   \<and> nextBlock (step N BLOCK_SIZE (Run 0)
         (exec N BLOCK_SIZE upToFirstClaim (calculatePi_setup 13))) = 13 + 1"
proof -
  note t = C6_claim_is_fetch_and_add[OF valid_run_program_13, of upToFirstClaim]
  note u = upToFirstClaim_state
  have lt: "(0::nat) < 13" by simp
  have a: "currentBlock (workers (step N BLOCK_SIZE (Run 0)
         (exec N BLOCK_SIZE upToFirstClaim (calculatePi_setup 13))) ! 0)
       = nextBlock (exec N BLOCK_SIZE upToFirstClaim (calculatePi_setup 13))
     \<and> nextBlock (step N BLOCK_SIZE (Run 0)
         (exec N BLOCK_SIZE upToFirstClaim (calculatePi_setup 13)))
       = nextBlock (exec N BLOCK_SIZE upToFirstClaim (calculatePi_setup 13)) + 1"
    using t u lt by blast
  have b: "nextBlock (calculatePi_setup 13) = int 13
     \<and> step N BLOCK_SIZE (Run 0) (calculatePi_setup 13) = calculatePi_setup 13"
    using t by blast
  have n13: "nextBlock (exec N BLOCK_SIZE upToFirstClaim (calculatePi_setup 13)) = 13"
    using u by blast
  show ?thesis using valid_run_program_13 a b u lt unfolding n13 by blast
qed

text \<open>
  Claim C3 says that the loop body runs only while \<open>currentBlock < NUMBER_OF_BLOCKS\<close> and that a
  thread holding an index \<open>\<ge> NUMBER_OF_BLOCKS\<close> goes to the fold without signalling. The guard of
  line 60 is \<^verbatim>\<open>currentBlock <= NUMBER_OF_BLOCKS\<close>: a thread that holds the index 13 (the block
  count of the program) enters the body, and signals its event for this empty block.
\<close>

theorem C3_empty_block_is_signalled:
  "NUMBER_OF_BLOCKS N BLOCK_SIZE
     \<le> currentBlock (workers (exec N BLOCK_SIZE holdsBlockCount (calculatePi_setup 13)) ! 0)
   \<and> pc (workers (exec N BLOCK_SIZE holdsBlockCount (calculatePi_setup 13)) ! 0) = AtLoopTest
   \<and> events (exec N BLOCK_SIZE holdsBlockCount (calculatePi_setup 13)) ! 0 = False
   \<and> pc (workers (exec N BLOCK_SIZE (holdsBlockCount @ [Run 0]) (calculatePi_setup 13)) ! 0) \<noteq> AtFold
   \<and> pc (workers (exec N BLOCK_SIZE (holdsBlockCount @ [Run 0]) (calculatePi_setup 13)) ! 0) = AtSetEvent
   \<and> events (exec N BLOCK_SIZE (holdsBlockCount @ [Run 0, Run 0]) (calculatePi_setup 13)) ! 0 = True"
  using holdsBlockCount_state holdsBlockCount_next by (simp add: NUMBER_OF_BLOCKS_program)

text \<open>
  Claim C3, amended. A thread at the loop test executes the body while
  \<open>currentBlock \<le> NUMBER_OF_BLOCKS\<close>: it adds the sum of the block to \<open>threadPi\<close> and then signals
  its event. For \<open>currentBlock = NUMBER_OF_BLOCKS\<close> the range is empty and \<open>threadPi\<close> is
  unchanged, the event is still signalled, and the thread goes on to claim again without
  suspending. Once \<open>currentBlock > NUMBER_OF_BLOCKS\<close> it goes to the fold, which adds \<open>threadPi\<close>
  to \<open>pi_global\<close>, without signalling, and returns.
\<close>

theorem C3_loop_body_runs_up_to_block_count:
  assumes v: "valid_run n b T" and t: "t < T"
    and r: "runnable (workers (exec n b sched (calculatePi_setup T)) ! t)"
    and pc: "pc (workers (exec n b sched (calculatePi_setup T)) ! t) = AtLoopTest"
  shows "(currentBlock (workers (exec n b sched (calculatePi_setup T)) ! t) \<le> NUMBER_OF_BLOCKS n b \<longrightarrow>
            pc (workers (exec n b (sched @ [Run t]) (calculatePi_setup T)) ! t) = AtSetEvent
          \<and> threadPi (workers (exec n b (sched @ [Run t]) (calculatePi_setup T)) ! t)
              = threadPi (workers (exec n b sched (calculatePi_setup T)) ! t)
                + blockSum n b (currentBlock (workers (exec n b sched (calculatePi_setup T)) ! t))
          \<and> events (exec n b (sched @ [Run t, Run t]) (calculatePi_setup T)) ! t = True)
    \<and> (currentBlock (workers (exec n b sched (calculatePi_setup T)) ! t) = NUMBER_OF_BLOCKS n b \<longrightarrow>
            threadPi (workers (exec n b (sched @ [Run t]) (calculatePi_setup T)) ! t)
              = threadPi (workers (exec n b sched (calculatePi_setup T)) ! t)
          \<and> pc (workers (exec n b (sched @ [Run t, Run t, Run t]) (calculatePi_setup T)) ! t) = AtClaim
          \<and> suspendCount (workers (exec n b (sched @ [Run t, Run t, Run t]) (calculatePi_setup T)) ! t) = 0)
    \<and> (NUMBER_OF_BLOCKS n b < currentBlock (workers (exec n b sched (calculatePi_setup T)) ! t) \<longrightarrow>
            pc (workers (exec n b (sched @ [Run t]) (calculatePi_setup T)) ! t) = AtFold
          \<and> events (exec n b (sched @ [Run t]) (calculatePi_setup T))
              = events (exec n b sched (calculatePi_setup T))
          \<and> pc (workers (exec n b (sched @ [Run t, Run t]) (calculatePi_setup T)) ! t) = Returned
          \<and> events (exec n b (sched @ [Run t, Run t]) (calculatePi_setup T))
              = events (exec n b sched (calculatePi_setup T))
          \<and> pi_global (exec n b (sched @ [Run t, Run t]) (calculatePi_setup T))
              = pi_global (exec n b sched (calculatePi_setup T))
                + threadPi (workers (exec n b sched (calculatePi_setup T)) ! t))"
proof -
  let ?M = "NUMBER_OF_BLOCKS n b"
  let ?s = "exec n b sched (calculatePi_setup T)"
  let ?w = "workers ?s ! t"
  have vc: "valid_config n b" using v by (simp add: valid_run_def)
  have i: "invariant n b T ?s" using v by (rule invariant_reachable)
  have len: "length (workers ?s) = T" "length (events ?s) = T" using i by (simp_all add: invariant_def)
  have tl: "t < length (workers ?s)" "t < length (events ?s)" using t len by simp_all
  have ok: "worker_ok n b (nextBlock ?s) ?w" using i t by (rule worker_ok_reachable)
  have cb0: "0 \<le> currentBlock ?w" and cbc: "currentBlock ?w < nextBlock ?s"
    using ok by (simp_all add: worker_ok_def)
  have sc: "suspendCount ?w = 0" using r by (simp add: runnable_def)
  have inside: "currentBlock ?w \<le> ?M \<longrightarrow>
            pc (workers (exec n b [Run t] ?s) ! t) = AtSetEvent
          \<and> threadPi (workers (exec n b [Run t] ?s) ! t) = threadPi ?w + blockSum n b (currentBlock ?w)
          \<and> events (exec n b [Run t, Run t] ?s) ! t = True
          \<and> pc (workers (exec n b [Run t, Run t, Run t] ?s) ! t)
              = (if nextBlock ?s \<le> ?M then AtSuspend else AtClaim)
          \<and> suspendCount (workers (exec n b [Run t, Run t, Run t] ?s) ! t) = 0"
  proof
    assume le: "currentBlock ?w \<le> ?M"
    let ?w1 = "?w\<lparr>pc := AtSetEvent, threadPi := threadPi ?w + blockSum n b (currentBlock ?w)\<rparr>"
    let ?s1 = "?s\<lparr>workers := (workers ?s)[t := ?w1]\<rparr>"
    have s1: "step n b (Run t) ?s = ?s1"
      using run_at_loop_test_inside[OF vc tl(1) pc cb0 le] step_run[OF tl(1) r] by simp
    let ?w2 = "?w1\<lparr>pc := AtCheckNext\<rparr>"
    let ?s2 = "?s1\<lparr>events := (events ?s1)[t := True], workers := (workers ?s1)[t := ?w2]\<rparr>"
    have w1: "workers ?s1 ! t = ?w1" using tl by simp
    have s2: "step n b (Run t) ?s1 = ?s2"
      using run_at_set_event[of ?s1 t n b] w1 tl sc by (simp add: runnable_def)
    let ?w3 = "?w2\<lparr>pc := (if nextBlock ?s \<le> ?M then AtSuspend else AtClaim)\<rparr>"
    let ?s3 = "?s2\<lparr>workers := (workers ?s2)[t := ?w3]\<rparr>"
    have w2: "workers ?s2 ! t = ?w2" using tl by simp
    have s3: "step n b (Run t) ?s2 = ?s3"
      using run_at_check_next[of ?s2 t n b] w2 tl sc by (simp add: runnable_def)
    have e1: "exec n b [Run t] ?s = ?s1" using s1 by simp
    have e2: "exec n b [Run t, Run t] ?s = ?s2" using s1 s2 by simp
    have e3: "exec n b [Run t, Run t, Run t] ?s = ?s3" using s1 s2 s3 by simp
    show "pc (workers (exec n b [Run t] ?s) ! t) = AtSetEvent
          \<and> threadPi (workers (exec n b [Run t] ?s) ! t) = threadPi ?w + blockSum n b (currentBlock ?w)
          \<and> events (exec n b [Run t, Run t] ?s) ! t = True
          \<and> pc (workers (exec n b [Run t, Run t, Run t] ?s) ! t)
              = (if nextBlock ?s \<le> ?M then AtSuspend else AtClaim)
          \<and> suspendCount (workers (exec n b [Run t, Run t, Run t] ?s) ! t) = 0"
      unfolding e1 e2 e3 using tl sc by simp
  qed
  have last: "currentBlock ?w = ?M \<longrightarrow> blockSum n b (currentBlock ?w) = 0 \<and> \<not> nextBlock ?s \<le> ?M"
  proof
    assume e: "currentBlock ?w = ?M"
    then have "?M \<le> currentBlock ?w" by simp
    then have "blockSum n b (currentBlock ?w) = 0" using vc by (intro blockSum_past_end)
    moreover have "\<not> nextBlock ?s \<le> ?M" using cbc e by simp
    ultimately show "blockSum n b (currentBlock ?w) = 0 \<and> \<not> nextBlock ?s \<le> ?M" by blast
  qed
  have outside: "?M < currentBlock ?w \<longrightarrow>
            pc (workers (exec n b [Run t] ?s) ! t) = AtFold
          \<and> events (exec n b [Run t] ?s) = events ?s
          \<and> pc (workers (exec n b [Run t, Run t] ?s) ! t) = Returned
          \<and> events (exec n b [Run t, Run t] ?s) = events ?s
          \<and> pi_global (exec n b [Run t, Run t] ?s) = pi_global ?s + threadPi ?w"
  proof
    assume gt: "?M < currentBlock ?w"
    let ?w1 = "?w\<lparr>pc := AtFold\<rparr>"
    let ?s1 = "?s\<lparr>workers := (workers ?s)[t := ?w1]\<rparr>"
    have s1: "step n b (Run t) ?s = ?s1"
      using run_at_loop_test_outside[OF pc gt] step_run[OF tl(1) r] by simp
    let ?s2 = "?s1\<lparr>pi_global := pi_global ?s1 + threadPi ?w1,
                  workers := (workers ?s1)[t := ?w1\<lparr>pc := Returned\<rparr>]\<rparr>"
    have w1: "workers ?s1 ! t = ?w1" using tl by simp
    have s2: "step n b (Run t) ?s1 = ?s2"
      using run_at_fold[of ?s1 t n b] w1 tl sc by (simp add: runnable_def)
    have e1: "exec n b [Run t] ?s = ?s1" using s1 by simp
    have e2: "exec n b [Run t, Run t] ?s = ?s2" using s1 s2 by simp
    show "pc (workers (exec n b [Run t] ?s) ! t) = AtFold
          \<and> events (exec n b [Run t] ?s) = events ?s
          \<and> pc (workers (exec n b [Run t, Run t] ?s) ! t) = Returned
          \<and> events (exec n b [Run t, Run t] ?s) = events ?s
          \<and> pi_global (exec n b [Run t, Run t] ?s) = pi_global ?s + threadPi ?w"
      unfolding e1 e2 using tl by simp
  qed
  show ?thesis unfolding exec_append using inside last outside by simp
qed

theorem C3_loop_body_runs_up_to_block_count_witness:
  "valid_run N BLOCK_SIZE 13 \<and> (0::nat) < 13
   \<and> runnable (workers (exec N BLOCK_SIZE holdsBlockCount (calculatePi_setup 13)) ! 0)
   \<and> pc (workers (exec N BLOCK_SIZE holdsBlockCount (calculatePi_setup 13)) ! 0) = AtLoopTest
   \<and> currentBlock (workers (exec N BLOCK_SIZE holdsBlockCount (calculatePi_setup 13)) ! 0)
       = NUMBER_OF_BLOCKS N BLOCK_SIZE
   \<and> events (exec N BLOCK_SIZE (holdsBlockCount @ [Run 0, Run 0]) (calculatePi_setup 13)) ! 0 = True
   \<and> threadPi (workers (exec N BLOCK_SIZE (holdsBlockCount @ [Run 0]) (calculatePi_setup 13)) ! 0)
       = threadPi (workers (exec N BLOCK_SIZE holdsBlockCount (calculatePi_setup 13)) ! 0)
   \<and> pc (workers (exec N BLOCK_SIZE (holdsBlockCount @ [Run 0, Run 0, Run 0]) (calculatePi_setup 13)) ! 0)
       = AtClaim
   \<and> runnable (workers (exec N BLOCK_SIZE holdsPastBlockCount (calculatePi_setup 13)) ! 0)
   \<and> pc (workers (exec N BLOCK_SIZE holdsPastBlockCount (calculatePi_setup 13)) ! 0) = AtLoopTest
   \<and> NUMBER_OF_BLOCKS N BLOCK_SIZE
       < currentBlock (workers (exec N BLOCK_SIZE holdsPastBlockCount (calculatePi_setup 13)) ! 0)
   \<and> pc (workers (exec N BLOCK_SIZE (holdsPastBlockCount @ [Run 0]) (calculatePi_setup 13)) ! 0) = AtFold
   \<and> events (exec N BLOCK_SIZE (holdsPastBlockCount @ [Run 0, Run 0]) (calculatePi_setup 13))
       = events (exec N BLOCK_SIZE holdsPastBlockCount (calculatePi_setup 13))
   \<and> pi_global (exec N BLOCK_SIZE (holdsPastBlockCount @ [Run 0, Run 0]) (calculatePi_setup 13))
       = pi_global (exec N BLOCK_SIZE holdsPastBlockCount (calculatePi_setup 13))
         + threadPi (workers (exec N BLOCK_SIZE holdsPastBlockCount (calculatePi_setup 13)) ! 0)"
proof -
  have lt: "(0::nat) < 13" by simp
  have a: "runnable (workers (exec N BLOCK_SIZE holdsBlockCount (calculatePi_setup 13)) ! 0)"
    and b: "pc (workers (exec N BLOCK_SIZE holdsBlockCount (calculatePi_setup 13)) ! 0) = AtLoopTest"
    and c: "currentBlock (workers (exec N BLOCK_SIZE holdsBlockCount (calculatePi_setup 13)) ! 0)
       = NUMBER_OF_BLOCKS N BLOCK_SIZE"
    using holdsBlockCount_state by (simp_all add: NUMBER_OF_BLOCKS_program)
  have a': "runnable (workers (exec N BLOCK_SIZE holdsPastBlockCount (calculatePi_setup 13)) ! 0)"
    and b': "pc (workers (exec N BLOCK_SIZE holdsPastBlockCount (calculatePi_setup 13)) ! 0) = AtLoopTest"
    and c': "NUMBER_OF_BLOCKS N BLOCK_SIZE
       < currentBlock (workers (exec N BLOCK_SIZE holdsPastBlockCount (calculatePi_setup 13)) ! 0)"
    using holdsPastBlockCount_state by (simp_all add: NUMBER_OF_BLOCKS_program)
  note at_count = C3_loop_body_runs_up_to_block_count[OF valid_run_program_13 lt a b]
  note past_count = C3_loop_body_runs_up_to_block_count[OF valid_run_program_13 lt a' b']
  have le: "currentBlock (workers (exec N BLOCK_SIZE holdsBlockCount (calculatePi_setup 13)) ! 0)
       \<le> NUMBER_OF_BLOCKS N BLOCK_SIZE" using c by simp
  have r1: "events (exec N BLOCK_SIZE (holdsBlockCount @ [Run 0, Run 0]) (calculatePi_setup 13)) ! 0 = True"
    using at_count le by blast
  have r2: "threadPi (workers (exec N BLOCK_SIZE (holdsBlockCount @ [Run 0]) (calculatePi_setup 13)) ! 0)
       = threadPi (workers (exec N BLOCK_SIZE holdsBlockCount (calculatePi_setup 13)) ! 0)
     \<and> pc (workers (exec N BLOCK_SIZE (holdsBlockCount @ [Run 0, Run 0, Run 0]) (calculatePi_setup 13)) ! 0)
       = AtClaim"
    using at_count c by blast
  have r3: "pc (workers (exec N BLOCK_SIZE (holdsPastBlockCount @ [Run 0]) (calculatePi_setup 13)) ! 0) = AtFold
     \<and> events (exec N BLOCK_SIZE (holdsPastBlockCount @ [Run 0, Run 0]) (calculatePi_setup 13))
       = events (exec N BLOCK_SIZE holdsPastBlockCount (calculatePi_setup 13))
     \<and> pi_global (exec N BLOCK_SIZE (holdsPastBlockCount @ [Run 0, Run 0]) (calculatePi_setup 13))
       = pi_global (exec N BLOCK_SIZE holdsPastBlockCount (calculatePi_setup 13))
         + threadPi (workers (exec N BLOCK_SIZE holdsPastBlockCount (calculatePi_setup 13)) ! 0)"
    using past_count c' by blast
  show ?thesis using valid_run_program_13 lt a b c a' b' c' r1 r2 r3 by blast
qed




end
